theory Spec2Isabelle
  imports Main "HOL-Library.Word"
begin

section \<open>aiko-json: enumerations and configuration (include/aiko-json.h)\<close>

datatype djson_format_e = JSON_COMPACT | JSON_PRETTY

datatype djson_type_e = JSON_PRIMITIVE | JSON_OBJECT | JSON_ARRAY | JSON_STRING

text \<open>The numeric values of the enumerators, as the header assigns them.\<close>

fun format_code :: "djson_format_e \<Rightarrow> int" where
  "format_code JSON_COMPACT = 0"
| "format_code JSON_PRETTY = 1"

fun type_code :: "djson_type_e \<Rightarrow> int" where
  "type_code JSON_PRIMITIVE = 0"
| "type_code JSON_OBJECT = 1"
| "type_code JSON_ARRAY = 2"
| "type_code JSON_STRING = 3"

text \<open>
  \<open>djson_error_e\<close>. The C code stores error codes in plain \<open>int\<close> fields and lets
  \<open>jsmne_parse\<close> return either a negative code or a non-negative count through the same
  type, so the codes are modelled as the integers they are.
\<close>

definition JSON_ERROR_NOMEM :: int where "JSON_ERROR_NOMEM = -1"
definition JSON_ERROR_INVAL :: int where "JSON_ERROR_INVAL = -2"
definition JSON_ERROR_PART :: int where "JSON_ERROR_PART = -3"
definition JSON_ERROR_BUF_FULL :: int where "JSON_ERROR_BUF_FULL = -4"
definition JSON_ERROR_NOT_ARRAY :: int where "JSON_ERROR_NOT_ARRAY = -5"
definition JSON_ERROR_NOT_OBJECT :: int where "JSON_ERROR_NOT_OBJECT = -6"
definition JSON_ERROR_STACK_FULL :: int where "JSON_ERROR_STACK_FULL = -7"
definition JSON_ERROR_STACK_EMPTY :: int where "JSON_ERROR_STACK_EMPTY = -8"
definition JSON_ERROR_NEST_ERROR :: int where "JSON_ERROR_NEST_ERROR = -9"
definition JSON_ERROR_OK :: int where "JSON_ERROR_OK = 0"

lemmas json_error_defs =
  JSON_ERROR_NOMEM_def JSON_ERROR_INVAL_def JSON_ERROR_PART_def JSON_ERROR_BUF_FULL_def
  JSON_ERROR_NOT_ARRAY_def JSON_ERROR_NOT_OBJECT_def JSON_ERROR_STACK_FULL_def
  JSON_ERROR_STACK_EMPTY_def JSON_ERROR_NEST_ERROR_def JSON_ERROR_OK_def

definition JSON_TOKEN_SIZE :: nat where "JSON_TOKEN_SIZE = 4096"
definition JSON_JSON_SIZE :: nat where "JSON_JSON_SIZE = 65536"
definition JSON_STACK_DEPTH :: nat where "JSON_STACK_DEPTH = 32"

section \<open>The serializer (unparser)\<close>

subsection \<open>Handle state\<close>

record nodestack_t =
  nodeType :: djson_type_e
  elementNo :: int

text \<open>
  \<open>struct_unparser_s\<close>. The field \<open>buffer\<close> of the model holds the bytes between the
  start of the C array \<open>buffer\<close> and the write pointer \<open>bufp\<close>, so \<open>bufp - buffer\<close> is
  \<open>length (buffer u)\<close>. The array \<open>nodeStack\<close> is a function from index to frame; the
  code keeps \<open>stackpos\<close> below \<open>JSON_STACK_DEPTH\<close> (see \<open>jwPush\<close>). The scratch array
  \<open>tmpbuf\<close> only carries the result of the number conversion to the next call and is
  modelled by passing that result. The mutex plays no role in a single-threaded run.
\<close>

record unparser_s =
  buffer :: string
  error :: int
  callNo :: int
  nodeStack :: "nat \<Rightarrow> nodestack_t"
  stackpos :: nat
  isPretty :: int

subsection \<open>Integer to text (modp\_itoa10)\<close>

text \<open>
  The do-while loop of \<open>modp_itoa10\<close>: the decimal digits of \<open>uvalue\<close>, least
  significant first, as they are written through \<open>wstr\<close>.
\<close>

function itoa_digits :: "nat \<Rightarrow> string" where
  "itoa_digits uvalue =
     char_of (48 + uvalue mod 10) #
       (if uvalue div 10 \<noteq> 0 then itoa_digits (uvalue div 10) else [])"
  by pat_completeness auto
termination
  by (relation "measure id") auto

declare itoa_digits.simps [simp del]

text \<open>
  \<open>modp_itoa10\<close> for a value in the range of \<open>int32_t\<close>: \<open>uvalue\<close> is the magnitude,
  the sign is appended after the reversed digits, and \<open>strreverse\<close> turns the text round.
\<close>

definition modp_itoa10 :: "int \<Rightarrow> string" where
  "modp_itoa10 v =
     rev (itoa_digits (nat \<bar>v\<bar>) @ (if v < 0 then [CHR ''-''] else []))"

subsection \<open>Writing into the buffer\<close>

definition jwPutch :: "unparser_s \<Rightarrow> char \<Rightarrow> unparser_s" where
  "jwPutch u c =
     (if length (buffer u) \<ge> JSON_JSON_SIZE
      then u\<lparr>error := JSON_ERROR_BUF_FULL\<rparr>
      else u\<lparr>buffer := buffer u @ [c]\<rparr>)"

text \<open>
  The \<open>char *\<close> arguments are modelled by the characters before the terminating NUL,
  which is where the \<open>while (*str != '\0')\<close> loops stop.
\<close>

definition jwPutraw :: "unparser_s \<Rightarrow> string \<Rightarrow> unparser_s" where
  "jwPutraw u str = foldl jwPutch u str"

definition jwPutstr :: "unparser_s \<Rightarrow> string \<Rightarrow> unparser_s" where
  \<open>jwPutstr u str = jwPutch (foldl jwPutch (jwPutch u (CHR ''"'')) str) (CHR ''"'')\<close>

definition jwPretty :: "unparser_s \<Rightarrow> unparser_s" where
  "jwPretty u =
     (if isPretty u \<noteq> 0
      then foldl (\<lambda>v i. jwPutraw v ''    '') (jwPutch u (CHR 0x0A)) [0 ..< stackpos u + 1]
      else u)"

definition jwPush :: "unparser_s \<Rightarrow> djson_type_e \<Rightarrow> unparser_s" where
  "jwPush u t =
     (if stackpos u + 1 \<ge> JSON_STACK_DEPTH
      then u\<lparr>error := JSON_ERROR_STACK_FULL\<rparr>
      else u\<lparr>stackpos := stackpos u + 1,
              nodeStack := (nodeStack u)(stackpos u + 1 := \<lparr>nodeType = t, elementNo = 0\<rparr>)\<rparr>)"

definition jwPop :: "unparser_s \<Rightarrow> djson_type_e \<times> unparser_s" where
  "jwPop u =
     (nodeType (nodeStack u (stackpos u)),
      if stackpos u = 0 then u\<lparr>error := JSON_ERROR_STACK_EMPTY\<rparr>
      else u\<lparr>stackpos := stackpos u - 1\<rparr>)"

text \<open>
  \<open>_jwObj\<close> and \<open>_jwArr\<close> (an Isabelle name cannot start with an underscore). Note
  that \<open>jwPretty\<close>, and in \<open>_jwObj\<close> the key and the colon, are written after the
  container check whatever its outcome; only the comma is skipped.
\<close>

definition jwObj :: "unparser_s \<Rightarrow> string \<Rightarrow> int \<times> unparser_s" where
  "jwObj u key =
     (if error u = JSON_ERROR_OK then
        let u1 = u\<lparr>callNo := callNo u + 1\<rparr>;
            top = nodeStack u1 (stackpos u1);
            u2 = (if nodeType top \<noteq> JSON_OBJECT then u1\<lparr>error := JSON_ERROR_NOT_OBJECT\<rparr>
                  else let u1' = u1\<lparr>nodeStack := (nodeStack u1)
                                 (stackpos u1 := top\<lparr>elementNo := elementNo top + 1\<rparr>)\<rparr>
                       in if elementNo top > 0 then jwPutch u1' (CHR '','') else u1');
            u3 = jwPretty u2;
            u4 = jwPutstr u3 key;
            u5 = jwPutch u4 (CHR '':'');
            u6 = (if isPretty u5 \<noteq> 0 then jwPutch u5 (CHR '' '') else u5)
        in (error u6, u6)
      else (error u, u))"

definition jwArr :: "unparser_s \<Rightarrow> int \<times> unparser_s" where
  "jwArr u =
     (if error u = JSON_ERROR_OK then
        let u1 = u\<lparr>callNo := callNo u + 1\<rparr>;
            top = nodeStack u1 (stackpos u1);
            u2 = (if nodeType top \<noteq> JSON_ARRAY then u1\<lparr>error := JSON_ERROR_NOT_ARRAY\<rparr>
                  else let u1' = u1\<lparr>nodeStack := (nodeStack u1)
                                 (stackpos u1 := top\<lparr>elementNo := elementNo top + 1\<rparr>)\<rparr>
                       in if elementNo top > 0 then jwPutch u1' (CHR '','') else u1');
            u3 = jwPretty u2
        in (error u3, u3)
      else (error u, u))"

subsection \<open>The public serializer calls\<close>

definition startUnparsingJSON ::
  "unparser_s \<Rightarrow> djson_type_e \<Rightarrow> djson_format_e \<Rightarrow> int \<times> unparser_s" where
  "startUnparsingJSON u rootType fmt =
     (JSON_ERROR_OK,
      jwPutch
        (u\<lparr>buffer := [],
           nodeStack := (nodeStack u)(0 := \<lparr>nodeType = rootType, elementNo = 0\<rparr>),
           stackpos := 0,
           error := JSON_ERROR_OK,
           callNo := 1,
           isPretty := format_code fmt\<rparr>)
        (if rootType = JSON_STRING then CHR ''{'' else CHR ''[''))"

definition endJSON :: "unparser_s \<Rightarrow> int \<times> unparser_s" where
  "endJSON u =
     (if error u = JSON_ERROR_OK then
        (if stackpos u = 0 then
           let node = nodeType (nodeStack u 0);
               u1 = (if isPretty u \<noteq> 0 then jwPutch u (CHR 0x0A) else u);
               u2 = jwPutch u1 (if node = JSON_OBJECT then CHR ''}'' else CHR '']'')
           in (error u2, u2)
         else (JSON_ERROR_NEST_ERROR, u\<lparr>error := JSON_ERROR_NEST_ERROR\<rparr>))
      else (error u, u))"

definition endObject :: "unparser_s \<Rightarrow> int \<times> unparser_s" where
  "endObject u =
     (if error u = JSON_ERROR_OK then
        let lastElemNo = elementNo (nodeStack u (stackpos u));
            (node, u1) = jwPop u;
            u2 = (if lastElemNo > 0 then jwPretty u1 else u1);
            u3 = jwPutch u2 (if node = JSON_OBJECT then CHR ''}'' else CHR '']'')
        in (error u3, u3)
      else (error u, u))"

definition endArray :: "unparser_s \<Rightarrow> int \<times> unparser_s" where
  "endArray u =
     (if error u = JSON_ERROR_OK then
        let lastElemNo = elementNo (nodeStack u (stackpos u));
            (node, u1) = jwPop u;
            u2 = (if lastElemNo > 0 then jwPretty u1 else u1);
            u3 = jwPutch u2 (if node = JSON_OBJECT then CHR ''}'' else CHR '']'')
        in (error u3, u3)
      else (error u, u))"

definition getError :: "unparser_s \<Rightarrow> int" where
  "getError u = callNo u"

definition addRawTextToObject :: "unparser_s \<Rightarrow> string \<Rightarrow> string \<Rightarrow> unparser_s" where
  "addRawTextToObject u key rawtext =
     (case jwObj u key of (r, u') \<Rightarrow> if r = JSON_ERROR_OK then jwPutraw u' rawtext else u')"

definition addStringToObject :: "unparser_s \<Rightarrow> string \<Rightarrow> string \<Rightarrow> unparser_s" where
  "addStringToObject u key val =
     (case jwObj u key of (r, u') \<Rightarrow> if r = JSON_ERROR_OK then jwPutstr u' val else u')"

definition addIntegerToObject :: "unparser_s \<Rightarrow> string \<Rightarrow> int \<Rightarrow> unparser_s" where
  "addIntegerToObject u key val = addRawTextToObject u key (modp_itoa10 val)"

definition addBooleanToObject :: "unparser_s \<Rightarrow> string \<Rightarrow> int \<Rightarrow> unparser_s" where
  "addBooleanToObject u key oneOrZero =
     addRawTextToObject u key (if oneOrZero \<noteq> 0 then ''true'' else ''false'')"

definition addNullToObject :: "unparser_s \<Rightarrow> string \<Rightarrow> unparser_s" where
  "addNullToObject u key = addRawTextToObject u key ''null''"

definition addObjectToObject :: "unparser_s \<Rightarrow> string \<Rightarrow> unparser_s" where
  "addObjectToObject u key =
     (case jwObj u key of (r, u') \<Rightarrow>
        if r = JSON_ERROR_OK then jwPush (jwPutch u' (CHR ''{'')) JSON_OBJECT else u')"

definition addArrayToObject :: "unparser_s \<Rightarrow> string \<Rightarrow> unparser_s" where
  "addArrayToObject u key =
     (case jwObj u key of (r, u') \<Rightarrow>
        if r = JSON_ERROR_OK then jwPush (jwPutch u' (CHR ''['')) JSON_ARRAY else u')"

definition addRawTextToArray :: "unparser_s \<Rightarrow> string \<Rightarrow> unparser_s" where
  "addRawTextToArray u rawtext =
     (case jwArr u of (r, u') \<Rightarrow> if r = JSON_ERROR_OK then jwPutraw u' rawtext else u')"

definition addStringToArray :: "unparser_s \<Rightarrow> string \<Rightarrow> unparser_s" where
  "addStringToArray u val =
     (case jwArr u of (r, u') \<Rightarrow> if r = JSON_ERROR_OK then jwPutstr u' val else u')"

definition addIntegerToArray :: "unparser_s \<Rightarrow> int \<Rightarrow> unparser_s" where
  "addIntegerToArray u val = addRawTextToArray u (modp_itoa10 val)"

definition addBooleanToArray :: "unparser_s \<Rightarrow> int \<Rightarrow> unparser_s" where
  "addBooleanToArray u oneOrZero =
     addRawTextToArray u (if oneOrZero \<noteq> 0 then ''true'' else ''false'')"

definition addNullToArray :: "unparser_s \<Rightarrow> unparser_s" where
  "addNullToArray u = addRawTextToArray u ''null''"

definition addObjectToArray :: "unparser_s \<Rightarrow> unparser_s" where
  "addObjectToArray u =
     (case jwArr u of (r, u') \<Rightarrow>
        if r = JSON_ERROR_OK then jwPush (jwPutch u' (CHR ''{'')) JSON_OBJECT else u')"

definition addArrayToArray :: "unparser_s \<Rightarrow> unparser_s" where
  "addArrayToArray u =
     (case jwArr u of (r, u') \<Rightarrow>
        if r = JSON_ERROR_OK then jwPush (jwPutch u' (CHR ''['')) JSON_ARRAY else u')"

section \<open>The tokenizer\<close>

subsection \<open>Tokens and parser state\<close>

text \<open>
  \<open>struct_token_s\<close>; the fields are \<open>type\<close>, \<open>start\<close>, \<open>end\<close>, \<open>size\<close> and
  \<open>parent\<close> in the source and carry the prefix \<open>tok_\<close> here (\<open>end\<close> is a keyword and
  \<open>size\<close> a constant of HOL).
\<close>

record token_s =
  tok_type :: djson_type_e
  tok_start :: int
  tok_end :: int
  tok_size :: int
  tok_parent :: int

text \<open>
  The token array is a function from index to token together with its capacity
  \<open>num_tokens\<close>; the cells keep whatever an earlier use left in them. Only indices in
  \<open>[0, num_tokens)\<close> belong to the array.
\<close>

type_synonym token_table = "nat \<Rightarrow> token_s"

text \<open>
  \<open>jsmne_parser\<close>. Positions are natural numbers: the model agrees with the
  \<open>unsigned int\<close> and \<open>int\<close> arithmetic of the source for texts shorter than \<open>2^31\<close>
  bytes.
\<close>

record jsmne_parser =
  pos :: nat
  toknext :: nat
  toksuper :: int

definition jsmne_init :: jsmne_parser where
  "jsmne_init = \<lparr>pos = 0, toknext = 0, toksuper = -1\<rparr>"

text \<open>\<open>jsmne_alloc_token\<close>: \<open>None\<close> is the NULL result. The type field is not reset.\<close>

definition jsmne_alloc_token ::
  "jsmne_parser \<Rightarrow> token_table \<Rightarrow> nat \<Rightarrow> (jsmne_parser \<times> token_table) option" where
  "jsmne_alloc_token p tokens num_tokens =
     (if toknext p \<ge> num_tokens then None
      else Some (p\<lparr>toknext := toknext p + 1\<rparr>,
                 tokens(toknext p := (tokens (toknext p))
                   \<lparr>tok_start := -1, tok_end := -1, tok_size := 0, tok_parent := -1\<rparr>)))"

definition jsmne_fill_token :: "token_s \<Rightarrow> djson_type_e \<Rightarrow> int \<Rightarrow> int \<Rightarrow> token_s" where
  "jsmne_fill_token token ty st en =
     token\<lparr>tok_type := ty, tok_start := st, tok_end := en, tok_size := 0\<rparr>"

subsection \<open>Reading and updating the table through \<open>toksuper\<close>\<close>

text \<open>
  The source indexes the table with the signed \<open>toksuper\<close>. Where it does so without
  first comparing with \<open>-1\<close>, the access \<open>tokens[-1]\<close> lies before the array: the
  behaviour of the C program is undefined there, and the model returns \<open>None\<close>.
\<close>

definition tok_at :: "token_table \<Rightarrow> nat \<Rightarrow> int \<Rightarrow> token_s option" where
  "tok_at tokens num_tokens i =
     (if 0 \<le> i \<and> i < int num_tokens then Some (tokens (nat i)) else None)"

text \<open>\<open>if (parser->toksuper != -1) tokens[parser->toksuper].size++;\<close>\<close>

definition super_size_incr :: "token_table \<Rightarrow> nat \<Rightarrow> int \<Rightarrow> token_table option" where
  "super_size_incr tokens num_tokens super =
     (if super = -1 then Some tokens
      else case tok_at tokens num_tokens super of
             None \<Rightarrow> None
           | Some t \<Rightarrow> Some (tokens(nat super := t\<lparr>tok_size := tok_size t + 1\<rparr>)))"

subsection \<open>Primitives\<close>

text \<open>
  The scanning loop of \<open>jsmne_parse_primitive\<close>; only the position changes in it.
  A byte below 32 or from 127 on is invalid whether \<open>char\<close> is signed or not (with a
  signed \<open>char\<close> the bytes from 128 on are negative).
\<close>

datatype prim_result = PrimFound nat | PrimInvalid

definition prim_delimiter :: "char \<Rightarrow> bool" where
  "prim_delimiter c \<longleftrightarrow>
     c = CHR 0x09 \<or> c = CHR 0x0D \<or> c = CHR 0x0A \<or> c = CHR '' '' \<or>
     c = CHR '','' \<or> c = CHR '']'' \<or> c = CHR ''}''"

function primitive_scan :: "string \<Rightarrow> nat \<Rightarrow> nat \<Rightarrow> prim_result" where
  "primitive_scan js len i =
     (if i < len \<and> js ! i \<noteq> CHR 0x00 then
        (if prim_delimiter (js ! i) then PrimFound i
         else if (of_char (js ! i) :: nat) < 32 \<or> (of_char (js ! i) :: nat) \<ge> 127
              then PrimInvalid
         else primitive_scan js len (i + 1))
      else PrimFound i)"
  by pat_completeness auto
termination
  by (relation "measure (\<lambda>(js, len, i). len - i)") auto

declare primitive_scan.simps [simp del]

text \<open>
  \<open>jsmne_parse_primitive\<close> with a token array (the only caller passes one, so the
  \<open>tokens == NULL\<close> branches are left out). Result: return value, parser, table.
\<close>

definition jsmne_parse_primitive ::
  "jsmne_parser \<Rightarrow> string \<Rightarrow> nat \<Rightarrow> token_table \<Rightarrow> nat
     \<Rightarrow> int \<times> jsmne_parser \<times> token_table" where
  "jsmne_parse_primitive p js len tokens num_tokens =
     (let start = pos p in
      case primitive_scan js len start of
        PrimInvalid \<Rightarrow> (JSON_ERROR_INVAL, p\<lparr>pos := start\<rparr>, tokens)
      | PrimFound i \<Rightarrow>
          (case jsmne_alloc_token (p\<lparr>pos := i\<rparr>) tokens num_tokens of
             None \<Rightarrow> (JSON_ERROR_NOMEM, p\<lparr>pos := start\<rparr>, tokens)
           | Some (p1, tokens1) \<Rightarrow>
               (0, p1\<lparr>pos := i - 1\<rparr>,
                tokens1(toknext p :=
                  (jsmne_fill_token (tokens1 (toknext p)) JSON_PRIMITIVE (int start) (int i))
                    \<lparr>tok_parent := toksuper p\<rparr>))))"

subsection \<open>Strings\<close>

definition is_hex :: "char \<Rightarrow> bool" where
  "is_hex c \<longleftrightarrow>
     (48 \<le> (of_char c :: nat) \<and> (of_char c :: nat) \<le> 57) \<or>
     (65 \<le> (of_char c :: nat) \<and> (of_char c :: nat) \<le> 70) \<or>
     (97 \<le> (of_char c :: nat) \<and> (of_char c :: nat) \<le> 102)"

text \<open>
  The loop over the digits of \<open>\uXXXX\<close>; the last argument counts the iterations left
  (\<open>4 - i\<close>). \<open>None\<close>: a character that is not a hexadecimal digit.
\<close>

fun hex_scan :: "string \<Rightarrow> nat \<Rightarrow> nat \<Rightarrow> nat \<Rightarrow> nat option" where
  "hex_scan js len i 0 = Some i"
| "hex_scan js len i (Suc n) =
     (if i < len \<and> js ! i \<noteq> CHR 0x00 then
        (if is_hex (js ! i) then hex_scan js len (i + 1) n else None)
      else Some i)"

lemma hex_scan_ge: "hex_scan js len i n = Some j \<Longrightarrow> i \<le> j"
  by (induction n arbitrary: i) (auto split: if_splits dest: Suc_leD)

definition simple_escape :: "char \<Rightarrow> bool" where
  \<open>simple_escape c \<longleftrightarrow>
     c = CHR ''"'' \<or> c = CHR ''/'' \<or> c = CHR 0x5C \<or> c = CHR ''b'' \<or>
     c = CHR ''f'' \<or> c = CHR ''r'' \<or> c = CHR ''n'' \<or> c = CHR ''t''\<close>

text \<open>
  The scanning loop of \<open>jsmne_parse_string\<close>, started behind the opening quote:
  the position of the closing quote, an invalid escape, or the end of the text.
\<close>

datatype string_result = StrQuote nat | StrInvalid | StrPartial

function string_scan :: "string \<Rightarrow> nat \<Rightarrow> nat \<Rightarrow> string_result" where
  \<open>string_scan js len i =
     (if i < len \<and> js ! i \<noteq> CHR 0x00 then
        (if js ! i = CHR ''"'' then StrQuote i
         else if js ! i = CHR 0x5C \<and> i + 1 < len then
           (if simple_escape (js ! (i + 1)) then string_scan js len (i + 1 + 1)
            else if js ! (i + 1) = CHR ''u'' then
              (case hex_scan js len (i + 1 + 1) 4 of
                 None \<Rightarrow> StrInvalid
               | Some j \<Rightarrow> string_scan js len (j - 1 + 1))
            else StrInvalid)
         else string_scan js len (i + 1))
      else StrPartial)\<close>
  by pat_completeness auto
termination
  by (relation "measure (\<lambda>(js, len, i). len - i)") (auto dest!: hex_scan_ge)

declare string_scan.simps [simp del]

definition jsmne_parse_string ::
  "jsmne_parser \<Rightarrow> string \<Rightarrow> nat \<Rightarrow> token_table \<Rightarrow> nat
     \<Rightarrow> int \<times> jsmne_parser \<times> token_table" where
  "jsmne_parse_string p js len tokens num_tokens =
     (let start = pos p in
      case string_scan js len (start + 1) of
        StrInvalid \<Rightarrow> (JSON_ERROR_INVAL, p\<lparr>pos := start\<rparr>, tokens)
      | StrPartial \<Rightarrow> (JSON_ERROR_PART, p\<lparr>pos := start\<rparr>, tokens)
      | StrQuote i \<Rightarrow>
          (case jsmne_alloc_token (p\<lparr>pos := i\<rparr>) tokens num_tokens of
             None \<Rightarrow> (JSON_ERROR_NOMEM, p\<lparr>pos := start\<rparr>, tokens)
           | Some (p1, tokens1) \<Rightarrow>
               (0, p1,
                tokens1(toknext p :=
                  (jsmne_fill_token (tokens1 (toknext p)) JSON_STRING (int start + 1) (int i))
                    \<lparr>tok_parent := toksuper p\<rparr>))))"

subsection \<open>The main scan\<close>

text \<open>
  The \<open>for (;;)\<close> loop of the closing-bracket case, which walks the \<open>parent\<close> links
  from the token allocated last. On a table whose links form a cycle the C loop does
  not end, and on a link outside the array it reads foreign memory: both are \<open>None\<close>.
\<close>

datatype closing = CloseMismatch | CloseFound nat | CloseNone

partial_function (option) close_search ::
  "token_table \<Rightarrow> nat \<Rightarrow> djson_type_e \<Rightarrow> nat \<Rightarrow> closing option" where
  "close_search tokens num_tokens ty i =
     (if i \<ge> num_tokens then None
      else if tok_start (tokens i) \<noteq> -1 \<and> tok_end (tokens i) = -1 then
        (if tok_type (tokens i) \<noteq> ty then Some CloseMismatch else Some (CloseFound i))
      else if tok_parent (tokens i) = -1 then Some CloseNone
      else if tok_parent (tokens i) < 0 then None
      else close_search tokens num_tokens ty (nat (tok_parent (tokens i))))"

declare close_search.simps [code]

text \<open>
  The loop of the comma case, \<open>for (i = toknext - 1; i >= 0; i--)\<close>: the second
  argument is \<open>i + 1\<close>, the third the value \<open>toksuper\<close> keeps when nothing is found.
\<close>

fun comma_search :: "token_table \<Rightarrow> nat \<Rightarrow> int \<Rightarrow> int" where
  "comma_search tokens 0 super = super"
| "comma_search tokens (Suc i) super =
     (if (tok_type (tokens i) = JSON_ARRAY \<or> tok_type (tokens i) = JSON_OBJECT) \<and>
         tok_start (tokens i) \<noteq> -1 \<and> tok_end (tokens i) = -1
      then int i
      else comma_search tokens i super)"

text \<open>The loop after the scan: is there a token that was opened and never closed?\<close>

fun unmatched :: "token_table \<Rightarrow> nat \<Rightarrow> bool" where
  "unmatched tokens 0 = False"
| "unmatched tokens (Suc i) =
     (if tok_start (tokens i) \<noteq> -1 \<and> tok_end (tokens i) = -1 then True
      else unmatched tokens i)"

definition prim_start :: "char \<Rightarrow> bool" where
  "prim_start c \<longleftrightarrow>
     c = CHR ''-'' \<or> c = CHR ''0'' \<or> c = CHR ''1'' \<or> c = CHR ''2'' \<or> c = CHR ''3'' \<or>
     c = CHR ''4'' \<or> c = CHR ''5'' \<or> c = CHR ''6'' \<or> c = CHR ''7'' \<or> c = CHR ''8'' \<or>
     c = CHR ''9'' \<or> c = CHR ''t'' \<or> c = CHR ''f'' \<or> c = CHR ''n''"

definition whitespace :: "char \<Rightarrow> bool" where
  "whitespace c \<longleftrightarrow> c = CHR 0x09 \<or> c = CHR 0x0D \<or> c = CHR 0x0A \<or> c = CHR '' ''"

text \<open>
  One pass through the body of the \<open>switch\<close> in \<open>jsmne_parse\<close>, at the character under
  \<open>pos\<close>: the function returns, or the loop goes on with a new parser, table and \<open>k\<close>.
\<close>

datatype step = Return int jsmne_parser token_table | Continue jsmne_parser token_table int

definition jsmne_parse_char ::
  "jsmne_parser \<Rightarrow> string \<Rightarrow> nat \<Rightarrow> token_table \<Rightarrow> nat \<Rightarrow> int \<Rightarrow> step option" where
  \<open>jsmne_parse_char p js len tokens num_tokens k =
     (let c = js ! pos p in
      if c = CHR ''{'' \<or> c = CHR ''['' then
        (case jsmne_alloc_token p tokens num_tokens of
           None \<Rightarrow> Some (Return JSON_ERROR_NOMEM p tokens)
         | Some (p1, tokens1) \<Rightarrow>
             (case super_size_incr tokens1 num_tokens (toksuper p1) of
                None \<Rightarrow> None
              | Some tokens2 \<Rightarrow>
                  Some (Continue (p1\<lparr>toksuper := int (toknext p1) - 1\<rparr>)
                    (tokens2(toknext p := (tokens2 (toknext p))
                       \<lparr>tok_parent := (if toksuper p1 \<noteq> -1 then toksuper p1
                                        else tok_parent (tokens2 (toknext p))),
                        tok_type := (if c = CHR ''{'' then JSON_OBJECT else JSON_ARRAY),
                        tok_start := int (pos p)\<rparr>))
                    (k + 1))))
      else if c = CHR ''}'' \<or> c = CHR '']'' then
        (if toknext p < 1 then Some (Return JSON_ERROR_INVAL p tokens)
         else
           (case close_search tokens num_tokens
                   (if c = CHR ''}'' then JSON_OBJECT else JSON_ARRAY) (toknext p - 1) of
              None \<Rightarrow> None
            | Some CloseMismatch \<Rightarrow> Some (Return JSON_ERROR_INVAL p tokens)
            | Some (CloseFound i) \<Rightarrow>
                Some (Continue (p\<lparr>toksuper := tok_parent (tokens i)\<rparr>)
                  (tokens(i := (tokens i)\<lparr>tok_end := int (pos p) + 1\<rparr>)) k)
            | Some CloseNone \<Rightarrow> Some (Continue p tokens k)))
      else if c = CHR ''"'' then
        (case jsmne_parse_string p js len tokens num_tokens of
           (r, p1, tokens1) \<Rightarrow>
             if r < 0 then Some (Return r p1 tokens1)
             else (case super_size_incr tokens1 num_tokens (toksuper p1) of
                     None \<Rightarrow> None
                   | Some tokens2 \<Rightarrow> Some (Continue p1 tokens2 (k + 1))))
      else if whitespace c then Some (Continue p tokens k)
      else if c = CHR '':'' then
        Some (Continue (p\<lparr>toksuper := int (toknext p) - 1\<rparr>) tokens k)
      else if c = CHR '','' then
        (case tok_at tokens num_tokens (toksuper p) of
           None \<Rightarrow> None
         | Some t \<Rightarrow>
             if tok_type t \<noteq> JSON_ARRAY \<and> tok_type t \<noteq> JSON_OBJECT
             then Some (Continue
                    (p\<lparr>toksuper := comma_search tokens (toknext p) (tok_parent t)\<rparr>) tokens k)
             else Some (Continue p tokens k))
      else if prim_start c then
        (case tok_at tokens num_tokens (toksuper p) of
           None \<Rightarrow> None
         | Some t \<Rightarrow>
             if tok_type t = JSON_OBJECT \<or> (tok_type t = JSON_STRING \<and> tok_size t \<noteq> 0)
             then Some (Return JSON_ERROR_INVAL p tokens)
             else
               (case jsmne_parse_primitive p js len tokens num_tokens of
                  (r, p1, tokens1) \<Rightarrow>
                    if r < 0 then Some (Return r p1 tokens1)
                    else (case super_size_incr tokens1 num_tokens (toksuper p1) of
                            None \<Rightarrow> None
                          | Some tokens2 \<Rightarrow> Some (Continue p1 tokens2 (k + 1)))))
      else Some (Return JSON_ERROR_INVAL p tokens))\<close>

lemma primitive_scan_ge: "primitive_scan js len i = PrimFound j \<Longrightarrow> i \<le> j"
proof (induction js len i rule: primitive_scan.induct)
  case (1 js len i)
  then show ?case
    by (subst (asm) (2) primitive_scan.simps) (auto split: if_splits dest: Suc_leD)
qed

lemma string_scan_ge: "string_scan js len i = StrQuote j \<Longrightarrow> i \<le> j"
proof (induction js len i rule: string_scan.induct)
  case (1 js len i)
  then show ?case
    by (subst (asm) (4) string_scan.simps) (auto split: if_splits option.splits dest: Suc_leD hex_scan_ge)
qed


lemma jsmne_parse_string_pos:
  "jsmne_parse_string p js len tokens num_tokens = (r, p1, tokens1) \<Longrightarrow> pos p \<le> pos p1"
  by (auto simp: jsmne_parse_string_def jsmne_alloc_token_def Let_def
      split: string_result.splits if_splits dest: string_scan_ge)

lemma jsmne_parse_primitive_pos:
  assumes "jsmne_parse_primitive p js len tokens num_tokens = (r, p1, tokens1)"
    and "pos p < len" and "js ! pos p \<noteq> CHR 0x00" and "prim_start (js ! pos p)"
  shows "pos p \<le> pos p1"
proof -
  have "primitive_scan js len (pos p) = primitive_scan js len (pos p + 1)"
    using assms(2-4)
    by (subst primitive_scan.simps) (auto simp: prim_start_def prim_delimiter_def)
  then have "primitive_scan js len (pos p) = PrimFound i \<Longrightarrow> pos p + 1 \<le> i" for i
    using primitive_scan_ge [of js len "pos p + 1" i] by simp
  then show ?thesis
    using assms(1)
    by (fastforce simp: jsmne_parse_primitive_def jsmne_alloc_token_def Let_def
        split: prim_result.splits if_splits)
qed

lemma jsmne_parse_char_pos:
  assumes "jsmne_parse_char p js len tokens num_tokens k = Some (Continue p1 tokens1 k1)"
    and "pos p < len" and "js ! pos p \<noteq> CHR 0x00"
  shows "pos p \<le> pos p1"
  using assms(1) jsmne_parse_primitive_pos [OF _ assms(2,3)]
    jsmne_parse_string_pos [of p js len tokens num_tokens]
  unfolding jsmne_parse_char_def Let_def
  by (auto split: if_splits option.splits prod.splits closing.splits
      simp: jsmne_alloc_token_def)

text \<open>
  The scanning loop of \<open>jsmne_parse\<close> and the check that follows it. The result is the
  returned value (a negative error code, or \<open>k\<close>) with the final parser and table.
  The loop and the check read tokens below \<open>toknext\<close> only, which
  \<open>jsmne_alloc_token\<close> keeps within the capacity.
\<close>

function jsmne_parse_loop ::
  "jsmne_parser \<Rightarrow> string \<Rightarrow> nat \<Rightarrow> token_table \<Rightarrow> nat \<Rightarrow> int
     \<Rightarrow> (int \<times> jsmne_parser \<times> token_table) option" where
  "jsmne_parse_loop p js len tokens num_tokens k =
     (if pos p < len \<and> js ! pos p \<noteq> CHR 0x00 then
        (case jsmne_parse_char p js len tokens num_tokens k of
           None \<Rightarrow> None
         | Some (Return r p1 tokens1) \<Rightarrow> Some (r, p1, tokens1)
         | Some (Continue p1 tokens1 k1) \<Rightarrow>
             jsmne_parse_loop (p1\<lparr>pos := pos p1 + 1\<rparr>) js len tokens1 num_tokens k1)
      else if unmatched tokens (toknext p) then Some (JSON_ERROR_PART, p, tokens)
      else Some (k, p, tokens))"
  by pat_completeness auto
termination
  by (relation "measure (\<lambda>(p, js, len, tokens, num_tokens, k). len - pos p)")
    (auto dest!: jsmne_parse_char_pos)

declare jsmne_parse_loop.simps [simp del]

definition jsmne_parse ::
  "jsmne_parser \<Rightarrow> string \<Rightarrow> nat \<Rightarrow> token_table \<Rightarrow> nat
     \<Rightarrow> (int \<times> jsmne_parser \<times> token_table) option" where
  "jsmne_parse p js len tokens num_tokens = jsmne_parse_loop p js len tokens num_tokens 0"

subsection \<open>The parser handle and the token cursor\<close>

text \<open>
  \<open>struct_parser_s\<close>. \<open>counter\<close> and \<open>length\<close> are \<open>size_t\<close>, taken as 64 bits wide;
  the field \<open>length\<close> is called \<open>length_s\<close> here.
\<close>

record parser_s =
  json :: string
  counter :: "64 word"
  length_s :: "64 word"
  tokens_s :: token_table

definition strlen :: "string \<Rightarrow> nat" where
  "strlen js = length (takeWhile (\<lambda>c. c \<noteq> CHR 0x00) js)"

text \<open>
  \<open>startParsingJSON\<close>: the returned code and the handle. The value of \<open>jsmne_parse\<close>
  goes through the \<open>int\<close> variable \<open>len\<close> into the unsigned field \<open>length\<close>.
\<close>

definition startParsingJSON :: "parser_s \<Rightarrow> string \<Rightarrow> (int \<times> parser_s) option" where
  "startParsingJSON parser js =
     (case jsmne_parse jsmne_init js (strlen js) (tokens_s parser) JSON_TOKEN_SIZE of
        None \<Rightarrow> None
      | Some (len, p, toks) \<Rightarrow>
          if len = JSON_ERROR_NOMEM
          then Some (JSON_ERROR_NOMEM, parser\<lparr>tokens_s := toks\<rparr>)
          else Some (JSON_ERROR_OK,
                     parser\<lparr>tokens_s := toks, counter := 0, length_s := word_of_int len,
                            json := js\<rparr>))"

definition hasBeforeToken :: "parser_s \<Rightarrow> bool" where
  "hasBeforeToken parser \<longleftrightarrow> counter parser > 0"

definition hasCurrentToken :: "parser_s \<Rightarrow> bool" where
  "hasCurrentToken parser \<longleftrightarrow> counter parser \<ge> 0 \<and> counter parser \<le> length_s parser - 1"

definition hasNextToken :: "parser_s \<Rightarrow> bool" where
  "hasNextToken parser \<longleftrightarrow> counter parser < length_s parser - 1"

definition beforeToken :: "parser_s \<Rightarrow> parser_s" where
  "beforeToken parser = parser\<lparr>counter := counter parser - 1\<rparr>"

definition nextToken :: "parser_s \<Rightarrow> parser_s" where
  "nextToken parser = parser\<lparr>counter := counter parser + 1\<rparr>"

definition sizeOfTokens :: "parser_s \<Rightarrow> 64 word" where
  "sizeOfTokens parser = length_s parser"

text \<open>
  The kind queries return the enumerator's value or \<open>-1\<close>. An index from
  \<open>JSON_TOKEN_SIZE\<close> on is outside the array \<open>tokens\<close>: \<open>None\<close>.
\<close>

definition token_type_at :: "parser_s \<Rightarrow> 64 word \<Rightarrow> int option" where
  "token_type_at parser i =
     (if unat i < JSON_TOKEN_SIZE then Some (type_code (tok_type (tokens_s parser (unat i))))
      else None)"

definition beforeTokenType :: "parser_s \<Rightarrow> int option" where
  "beforeTokenType parser =
     (if counter parser > 0 then token_type_at parser (counter parser - 1) else Some (-1))"

definition currentTokenType :: "parser_s \<Rightarrow> int option" where
  "currentTokenType parser =
     (if counter parser \<ge> 0 \<and> counter parser \<le> length_s parser - 1
      then token_type_at parser (counter parser) else Some (-1))"

definition nextTokenType :: "parser_s \<Rightarrow> int option" where
  "nextTokenType parser =
     (if counter parser < length_s parser - 1
      then token_type_at parser (counter parser + 1) else Some (-1))"

section \<open>Storage in its initial state\<close>

text \<open>
  A token table and a serializer handle in zero-initialised static storage, used as
  concrete starting points: every integer field is 0 and every enumeration field holds
  the enumerator of value 0.
\<close>

definition zero_tokens :: token_table where
  "zero_tokens =
     (\<lambda>_. \<lparr>tok_type = JSON_PRIMITIVE, tok_start = 0, tok_end = 0, tok_size = 0,
            tok_parent = 0\<rparr>)"

definition zero_unparser :: unparser_s where
  "zero_unparser =
     \<lparr>buffer = [], error = 0, callNo = 0,
      nodeStack = (\<lambda>_. \<lparr>nodeType = JSON_PRIMITIVE, elementNo = 0\<rparr>),
      stackpos = 0, isPretty = 0\<rparr>"

section \<open>Properties of the serializer\<close>

lemma modp_itoa10_5: "modp_itoa10 5 = ''5''"
  by (simp add: modp_itoa10_def itoa_digits.simps char_of_def bit_simps)

lemmas jw_write_defs =
  jwObj_def jwArr_def jwPretty_def jwPutstr_def jwPutraw_def jwPutch_def
  JSON_JSON_SIZE_def JSON_ERROR_OK_def

text \<open>
  C1. The episode start(root = Object, compact); add\_integer("x", 5);
  add\_string("y", "z"); end is claimed to leave exactly \<open>{"x":5,"y":"z"}\<close> in the
  output buffer. \<open>startUnparsingJSON\<close> compares the root kind with \<open>JSON_STRING\<close>
  instead of \<open>JSON_OBJECT\<close>, so for an Object root it writes an opening bracket: on
  every handle the episode leaves \<open>["x":5,"y":"z"}\<close>, which is not the claimed text.
\<close>

theorem scenario2_opens_with_bracket:
  \<open>buffer (snd (endJSON
       (addStringToObject
          (addIntegerToObject (snd (startUnparsingJSON u JSON_OBJECT JSON_COMPACT)) ''x'' 5)
          ''y'' ''z''))) = ''["x":5,"y":"z"}'' \<and>
   buffer (snd (endJSON
       (addStringToObject
          (addIntegerToObject (snd (startUnparsingJSON u JSON_OBJECT JSON_COMPACT)) ''x'' 5)
          ''y'' ''z''))) \<noteq> ''{"x":5,"y":"z"}''\<close>
proof -
  let ?st = "\<lambda>n. (nodeStack u)(0 := \<lparr>nodeType = JSON_OBJECT, elementNo = n\<rparr>)"
  define s0 where "s0 = snd (startUnparsingJSON u JSON_OBJECT JSON_COMPACT)"
  define s1 where "s1 = addIntegerToObject s0 ''x'' 5"
  define s2 where "s2 = addStringToObject s1 ''y'' ''z''"
  have e0: \<open>s0 = \<lparr>buffer = ''['', error = 0, callNo = 1, nodeStack = ?st 0,
                  stackpos = 0, isPretty = 0\<rparr>\<close>
    unfolding s0_def by (simp add: startUnparsingJSON_def jw_write_defs)
  have e1: \<open>s1 = \<lparr>buffer = ''["x":5'', error = 0, callNo = 2, nodeStack = ?st 1,
                  stackpos = 0, isPretty = 0\<rparr>\<close>
    unfolding s1_def e0
    by (simp add: addIntegerToObject_def addRawTextToObject_def modp_itoa10_5 jw_write_defs)
  have e2: \<open>s2 = \<lparr>buffer = ''["x":5,"y":"z"'', error = 0, callNo = 3, nodeStack = ?st 2,
                  stackpos = 0, isPretty = 0\<rparr>\<close>
    unfolding s2_def e1 by (simp add: addStringToObject_def jw_write_defs)
  have \<open>buffer (snd (endJSON s2)) = ''["x":5,"y":"z"}''\<close>
    unfolding e2 by (simp add: endJSON_def jw_write_defs)
  then show ?thesis
    unfolding s2_def s1_def s0_def by simp
qed

subsection \<open>Writes change neither the call counter nor the stack\<close>

lemma jwPutch_fields [simp]:
  "callNo (jwPutch u c) = callNo u"
  "stackpos (jwPutch u c) = stackpos u"
  "nodeStack (jwPutch u c) = nodeStack u"
  "isPretty (jwPutch u c) = isPretty u"
  by (simp_all add: jwPutch_def)

lemma foldl_jwPutch_fields [simp]:
  "callNo (foldl jwPutch u str) = callNo u"
  "stackpos (foldl jwPutch u str) = stackpos u"
  "nodeStack (foldl jwPutch u str) = nodeStack u"
  "isPretty (foldl jwPutch u str) = isPretty u"
  by (induction str arbitrary: u) simp_all

lemma jwPutraw_fields [simp]:
  "callNo (jwPutraw u str) = callNo u"
  "stackpos (jwPutraw u str) = stackpos u"
  "nodeStack (jwPutraw u str) = nodeStack u"
  "isPretty (jwPutraw u str) = isPretty u"
  by (simp_all add: jwPutraw_def)

lemma indent_fields [simp]:
  "callNo (foldl (\<lambda>v i. jwPutraw v str) u (is :: nat list)) = callNo u"
  "stackpos (foldl (\<lambda>v i. jwPutraw v str) u is) = stackpos u"
  "nodeStack (foldl (\<lambda>v i. jwPutraw v str) u is) = nodeStack u"
  "isPretty (foldl (\<lambda>v i. jwPutraw v str) u is) = isPretty u"
  by (induction "is" arbitrary: u) simp_all

lemma jwPretty_fields [simp]:
  "callNo (jwPretty u) = callNo u"
  "stackpos (jwPretty u) = stackpos u"
  "nodeStack (jwPretty u) = nodeStack u"
  "isPretty (jwPretty u) = isPretty u"
  by (simp_all add: jwPretty_def)

lemma jwPutstr_fields [simp]:
  "callNo (jwPutstr u str) = callNo u"
  "stackpos (jwPutstr u str) = stackpos u"
  by (simp_all add: jwPutstr_def)

lemma jwPush_callNo [simp]: "callNo (jwPush u t) = callNo u"
  by (simp add: jwPush_def)

lemma jwPop_callNo [simp]: "callNo (snd (jwPop u)) = callNo u"
  by (simp add: jwPop_def)

lemma jwObj_callNo:
  "callNo (snd (jwObj u key)) = (if error u = JSON_ERROR_OK then callNo u + 1 else callNo u)"
  by (simp add: jwObj_def Let_def)

lemma jwArr_callNo:
  "callNo (snd (jwArr u)) = (if error u = JSON_ERROR_OK then callNo u + 1 else callNo u)"
  by (simp add: jwArr_def Let_def)

lemma end_callNo:
  "callNo (snd (endObject u)) = callNo u"
  "callNo (snd (endArray u)) = callNo u"
  "callNo (snd (endJSON u)) = callNo u"
  by (simp_all add: endObject_def endArray_def endJSON_def Let_def split: prod.splits)
    (metis jwPop_callNo snd_conv)+

lemma end_returns_error:
  "fst (endObject u) = error (snd (endObject u))"
  "fst (endArray u) = error (snd (endArray u))"
  "fst (endJSON u) = error (snd (endJSON u))"
  by (simp_all add: endObject_def endArray_def endJSON_def Let_def split: prod.splits)

text \<open>
  C7. On a handle whose top frame is an Object and which has no latched error, an
  array-only add call is claimed to latch the wrong-container-for-array-write error and
  to leave the buffer as it was. \<open>_jwArr\<close> sets the error and skips the comma, but
  then calls \<open>jwPretty\<close> all the same: in pretty mode the newline and the indentation
  are appended to the buffer after the error is set.
\<close>

theorem addStringToArray_pretty_appends:
  \<open>nodeType (nodeStack (snd (startUnparsingJSON zero_unparser JSON_OBJECT JSON_PRETTY))
       (stackpos (snd (startUnparsingJSON zero_unparser JSON_OBJECT JSON_PRETTY)))) = JSON_OBJECT \<and>
   error (snd (startUnparsingJSON zero_unparser JSON_OBJECT JSON_PRETTY)) = JSON_ERROR_OK \<and>
   buffer (snd (startUnparsingJSON zero_unparser JSON_OBJECT JSON_PRETTY)) = ''['' \<and>
   error (addStringToArray (snd (startUnparsingJSON zero_unparser JSON_OBJECT JSON_PRETTY)) ''v'')
     = JSON_ERROR_NOT_ARRAY \<and>
   buffer (addStringToArray (snd (startUnparsingJSON zero_unparser JSON_OBJECT JSON_PRETTY)) ''v'')
     = [CHR ''['', CHR 0x0A, CHR '' '', CHR '' '', CHR '' '', CHR '' ''] \<and>
   buffer (addStringToArray (snd (startUnparsingJSON zero_unparser JSON_OBJECT JSON_PRETTY)) ''v'')
     \<noteq> buffer (snd (startUnparsingJSON zero_unparser JSON_OBJECT JSON_PRETTY))\<close>
  by (simp add: startUnparsingJSON_def zero_unparser_def addStringToArray_def jw_write_defs
      JSON_ERROR_NOT_ARRAY_def)

text \<open>
  C7, as the code has it: in compact mode (\<open>isPretty = 0\<close>) every array-only add or
  open call on such a handle latches the wrong-container-for-array-write error and
  leaves the buffer unchanged; only the call counter advances. (\<open>addDoubleToArray\<close>
  formats its number and then is \<open>addRawTextToArray\<close>.)
\<close>

theorem array_add_on_object_compact:
  assumes "nodeType (nodeStack u (stackpos u)) = JSON_OBJECT"
    and "error u = JSON_ERROR_OK"
    and "isPretty u = 0"
  shows "error (addStringToArray u v) = JSON_ERROR_NOT_ARRAY \<and>
         buffer (addStringToArray u v) = buffer u \<and>
         addStringToArray u v = u\<lparr>error := JSON_ERROR_NOT_ARRAY, callNo := callNo u + 1\<rparr> \<and>
         addRawTextToArray u v = u\<lparr>error := JSON_ERROR_NOT_ARRAY, callNo := callNo u + 1\<rparr> \<and>
         addIntegerToArray u n = u\<lparr>error := JSON_ERROR_NOT_ARRAY, callNo := callNo u + 1\<rparr> \<and>
         addBooleanToArray u b = u\<lparr>error := JSON_ERROR_NOT_ARRAY, callNo := callNo u + 1\<rparr> \<and>
         addNullToArray u = u\<lparr>error := JSON_ERROR_NOT_ARRAY, callNo := callNo u + 1\<rparr> \<and>
         addObjectToArray u = u\<lparr>error := JSON_ERROR_NOT_ARRAY, callNo := callNo u + 1\<rparr> \<and>
         addArrayToArray u = u\<lparr>error := JSON_ERROR_NOT_ARRAY, callNo := callNo u + 1\<rparr>"
proof -
  have "jwArr u = (JSON_ERROR_NOT_ARRAY, u\<lparr>error := JSON_ERROR_NOT_ARRAY, callNo := callNo u + 1\<rparr>)"
    using assms by (simp add: jwArr_def jwPretty_def)
  then show ?thesis
    by (simp add: addStringToArray_def addRawTextToArray_def addIntegerToArray_def
        addBooleanToArray_def addNullToArray_def addObjectToArray_def addArrayToArray_def
        JSON_ERROR_NOT_ARRAY_def JSON_ERROR_OK_def)
qed

theorem array_add_on_object_compact_witness:
  \<open>nodeType (nodeStack (snd (startUnparsingJSON zero_unparser JSON_OBJECT JSON_COMPACT))
       (stackpos (snd (startUnparsingJSON zero_unparser JSON_OBJECT JSON_COMPACT)))) = JSON_OBJECT \<and>
   error (snd (startUnparsingJSON zero_unparser JSON_OBJECT JSON_COMPACT)) = JSON_ERROR_OK \<and>
   isPretty (snd (startUnparsingJSON zero_unparser JSON_OBJECT JSON_COMPACT)) = 0 \<and>
   error (addStringToArray (snd (startUnparsingJSON zero_unparser JSON_OBJECT JSON_COMPACT)) ''v'')
     = JSON_ERROR_NOT_ARRAY \<and>
   buffer (addStringToArray (snd (startUnparsingJSON zero_unparser JSON_OBJECT JSON_COMPACT)) ''v'')
     = ''[''\<close>
proof -
  let ?s = "snd (startUnparsingJSON zero_unparser JSON_OBJECT JSON_COMPACT)"
  have h: "nodeType (nodeStack ?s (stackpos ?s)) = JSON_OBJECT" "error ?s = JSON_ERROR_OK"
    "isPretty ?s = 0" and b: \<open>buffer ?s = ''[''\<close>
    by (simp_all add: startUnparsingJSON_def zero_unparser_def jw_write_defs)
  from array_add_on_object_compact [OF h, of "''v''"] h b show ?thesis
    by simp
qed

lemma add_callNo:
  "callNo (addRawTextToObject u key str) = callNo (snd (jwObj u key))"
  "callNo (addStringToObject u key str) = callNo (snd (jwObj u key))"
  "callNo (addObjectToObject u key) = callNo (snd (jwObj u key))"
  "callNo (addArrayToObject u key) = callNo (snd (jwObj u key))"
  "callNo (addRawTextToArray u str) = callNo (snd (jwArr u))"
  "callNo (addStringToArray u str) = callNo (snd (jwArr u))"
  "callNo (addObjectToArray u) = callNo (snd (jwArr u))"
  "callNo (addArrayToArray u) = callNo (snd (jwArr u))"
  by (simp_all add: addRawTextToObject_def addStringToObject_def addObjectToObject_def
      addArrayToObject_def addRawTextToArray_def addStringToArray_def addObjectToArray_def
      addArrayToArray_def split: prod.splits)

text \<open>Writes into a buffer with room append their text and change nothing else.\<close>

lemma foldl_jwPutch_room:
  "length (buffer u) + length str \<le> JSON_JSON_SIZE \<Longrightarrow>
   foldl jwPutch u str = u\<lparr>buffer := buffer u @ str\<rparr>"
proof (induction str arbitrary: u)
  case Nil
  show ?case by simp
next
  case (Cons c str)
  from Cons.prems have "jwPutch u c = u\<lparr>buffer := buffer u @ [c]\<rparr>"
    by (simp add: jwPutch_def)
  moreover from Cons.prems
  have "foldl jwPutch (u\<lparr>buffer := buffer u @ [c]\<rparr>) str =
      (u\<lparr>buffer := buffer u @ [c]\<rparr>)\<lparr>buffer := buffer (u\<lparr>buffer := buffer u @ [c]\<rparr>) @ str\<rparr>"
    by (intro Cons.IH) simp
  ultimately show ?case
    by simp
qed

lemma indent_room:
  "length (buffer u) + 4 * length is \<le> JSON_JSON_SIZE \<Longrightarrow>
   foldl (\<lambda>v i. jwPutraw v ''    '') u (is :: nat list) =
     u\<lparr>buffer := buffer u @ concat (replicate (length is) ''    '')\<rparr>"
proof (induction "is" arbitrary: u)
  case Nil
  show ?case by simp
next
  case (Cons i "is")
  from Cons.prems have one: "jwPutraw u ''    '' = u\<lparr>buffer := buffer u @ ''    ''\<rparr>"
    unfolding jwPutraw_def by (intro foldl_jwPutch_room) simp
  from Cons.prems
  have "foldl (\<lambda>v i. jwPutraw v ''    '') (u\<lparr>buffer := buffer u @ ''    ''\<rparr>) is =
      (u\<lparr>buffer := buffer u @ ''    ''\<rparr>)\<lparr>buffer := buffer (u\<lparr>buffer := buffer u @ ''    ''\<rparr>) @
         concat (replicate (length is) ''    '')\<rparr>"
    by (intro Cons.IH) simp
  with one show ?case
    by simp
qed

lemma jwPretty_room:
  assumes "isPretty u \<noteq> 0"
    and "length (buffer u) + 1 + 4 * (stackpos u + 1) \<le> JSON_JSON_SIZE"
  shows "jwPretty u =
     u\<lparr>buffer := buffer u @ CHR 0x0A # concat (replicate (stackpos u + 1) ''    '')\<rparr>"
proof -
  from assms(2) have "jwPutch u (CHR 0x0A) = u\<lparr>buffer := buffer u @ [CHR 0x0A]\<rparr>"
    by (simp add: jwPutch_def)
  moreover from assms(2)
  have "foldl (\<lambda>v i. jwPutraw v ''    '') (u\<lparr>buffer := buffer u @ [CHR 0x0A]\<rparr>)
        [0 ..< stackpos u + 1] =
      (u\<lparr>buffer := buffer u @ [CHR 0x0A]\<rparr>)\<lparr>buffer := buffer (u\<lparr>buffer := buffer u @ [CHR 0x0A]\<rparr>) @
         concat (replicate (length [0 ..< stackpos u + 1]) ''    '')\<rparr>"
    by (intro indent_room) simp
  ultimately show ?thesis
    using assms(1) by (simp add: jwPretty_def)
qed

text \<open>
  What a close call writes when nothing stops it: in pretty mode, behind a frame that
  has elements, a newline and one indentation unit for each level that remains open
  (the frames below the popped one, the root included); then the closer of the kind of
  the frame on top.
\<close>

definition closing_text :: "unparser_s \<Rightarrow> string" where
  "closing_text u =
     (if elementNo (nodeStack u (stackpos u)) > 0 \<and> isPretty u \<noteq> 0
      then CHR 0x0A # concat (replicate (stackpos u) ''    '') else []) @
     [if nodeType (nodeStack u (stackpos u)) = JSON_OBJECT then CHR ''}'' else CHR '']'']"

lemma length_indent: "length (concat (replicate n ''    '')) = 4 * n"
  by (induction n) simp_all

lemma endArray_close:
  assumes ok: "error u = JSON_ERROR_OK" and above: "0 < stackpos u"
    and room: "length (buffer u) + length (closing_text u) \<le> JSON_JSON_SIZE"
  shows "endArray u =
     (JSON_ERROR_OK, u\<lparr>buffer := buffer u @ closing_text u, stackpos := stackpos u - 1\<rparr>)"
proof (cases "elementNo (nodeStack u (stackpos u)) > 0 \<and> isPretty u \<noteq> 0")
  case True
  let ?u1 = "u\<lparr>stackpos := stackpos u - 1\<rparr>"
  from True room above
  have r: "length (buffer ?u1) + 1 + 4 * (stackpos ?u1 + 1) \<le> JSON_JSON_SIZE"
    "length (buffer u) + 1 + 4 * stackpos u < JSON_JSON_SIZE"
    by (simp_all add: closing_text_def length_indent)
  from True have "isPretty ?u1 \<noteq> 0"
    by simp
  from jwPretty_room [OF this r(1)] above
  have "jwPretty ?u1 =
      ?u1\<lparr>buffer := buffer u @ CHR 0x0A # concat (replicate (stackpos u) ''    '')\<rparr>"
    by simp
  with True ok above r(2) show ?thesis
    by (simp add: endArray_def jwPop_def jwPutch_def closing_text_def length_indent Let_def)
next
  case False
  with room have "length (buffer u) < JSON_JSON_SIZE"
    by (auto simp: closing_text_def)
  with False ok above show ?thesis
    by (auto simp: endArray_def jwPop_def jwPutch_def closing_text_def jwPretty_def Let_def)
qed

text \<open>
  C9. \<open>endObject\<close> and \<open>endArray\<close> are claimed to pop the frame on top and to emit its
  closer in every serializer state. Three states in which they do not: after
  \<open>addStringToArray\<close> on an open object the error is latched, and both calls return it
  and leave the handle as it is, the frame still on the stack and no closer written;
  on a handle that has just been started, with only the root frame, both latch the
  stack-empty error and pop nothing (while the closer is written); and with a full
  buffer \<open>endObject\<close> pops the frame, writes nothing and latches the buffer-full
  error.
\<close>

theorem endObject_endArray_not_every_state:
  \<open>error (addStringToArray
       (addObjectToObject (snd (startUnparsingJSON zero_unparser JSON_OBJECT JSON_COMPACT)) ''a'')
       ''v'') = JSON_ERROR_NOT_ARRAY \<and>
   stackpos (addStringToArray
       (addObjectToObject (snd (startUnparsingJSON zero_unparser JSON_OBJECT JSON_COMPACT)) ''a'')
       ''v'') = 1 \<and>
   endObject (addStringToArray
       (addObjectToObject (snd (startUnparsingJSON zero_unparser JSON_OBJECT JSON_COMPACT)) ''a'')
       ''v'') =
     (JSON_ERROR_NOT_ARRAY, addStringToArray
       (addObjectToObject (snd (startUnparsingJSON zero_unparser JSON_OBJECT JSON_COMPACT)) ''a'')
       ''v'') \<and>
   endArray (addStringToArray
       (addObjectToObject (snd (startUnparsingJSON zero_unparser JSON_OBJECT JSON_COMPACT)) ''a'')
       ''v'') =
     (JSON_ERROR_NOT_ARRAY, addStringToArray
       (addObjectToObject (snd (startUnparsingJSON zero_unparser JSON_OBJECT JSON_COMPACT)) ''a'')
       ''v'') \<and>
   error (snd (startUnparsingJSON zero_unparser JSON_ARRAY JSON_COMPACT)) = JSON_ERROR_OK \<and>
   stackpos (snd (startUnparsingJSON zero_unparser JSON_ARRAY JSON_COMPACT)) = 0 \<and>
   fst (endArray (snd (startUnparsingJSON zero_unparser JSON_ARRAY JSON_COMPACT)))
     = JSON_ERROR_STACK_EMPTY \<and>
   stackpos (snd (endArray (snd (startUnparsingJSON zero_unparser JSON_ARRAY JSON_COMPACT)))) = 0 \<and>
   buffer (snd (endArray (snd (startUnparsingJSON zero_unparser JSON_ARRAY JSON_COMPACT))))
     = ''[]'' \<and>
   fst (endObject (snd (startUnparsingJSON zero_unparser JSON_ARRAY JSON_COMPACT)))
     = JSON_ERROR_STACK_EMPTY \<and>
   error (addRawTextToObject
       (addObjectToObject (snd (startUnparsingJSON zero_unparser JSON_OBJECT JSON_COMPACT)) ''a'')
       ''k'' (replicate 65526 (CHR ''1''))) = JSON_ERROR_OK \<and>
   stackpos (addRawTextToObject
       (addObjectToObject (snd (startUnparsingJSON zero_unparser JSON_OBJECT JSON_COMPACT)) ''a'')
       ''k'' (replicate 65526 (CHR ''1''))) = 1 \<and>
   fst (endObject (addRawTextToObject
       (addObjectToObject (snd (startUnparsingJSON zero_unparser JSON_OBJECT JSON_COMPACT)) ''a'')
       ''k'' (replicate 65526 (CHR ''1'')))) = JSON_ERROR_BUF_FULL \<and>
   stackpos (snd (endObject (addRawTextToObject
       (addObjectToObject (snd (startUnparsingJSON zero_unparser JSON_OBJECT JSON_COMPACT)) ''a'')
       ''k'' (replicate 65526 (CHR ''1''))))) = 0 \<and>
   buffer (snd (endObject (addRawTextToObject
       (addObjectToObject (snd (startUnparsingJSON zero_unparser JSON_OBJECT JSON_COMPACT)) ''a'')
       ''k'' (replicate 65526 (CHR ''1''))))) =
     buffer (addRawTextToObject
       (addObjectToObject (snd (startUnparsingJSON zero_unparser JSON_OBJECT JSON_COMPACT)) ''a'')
       ''k'' (replicate 65526 (CHR ''1'')))\<close>
proof -
  let ?st = "(\<lambda>_. \<lparr>nodeType = JSON_PRIMITIVE, elementNo = 0\<rparr>)
        (0 := \<lparr>nodeType = JSON_OBJECT, elementNo = 1\<rparr>,
         1 := \<lparr>nodeType = JSON_OBJECT, elementNo = 0\<rparr>)"
  define s where
    "s = addObjectToObject (snd (startUnparsingJSON zero_unparser JSON_OBJECT JSON_COMPACT)) ''a''"
  define l where "l = addStringToArray s ''v''"
  define r where "r = snd (startUnparsingJSON zero_unparser JSON_ARRAY JSON_COMPACT)"
  define f where "f = addRawTextToObject s ''k'' (replicate 65526 (CHR ''1''))"
  have s: \<open>s = \<lparr>buffer = ''["a":{'', error = 0, callNo = 2, nodeStack = ?st,
      stackpos = 1, isPretty = 0\<rparr>\<close>
    unfolding s_def
    by (simp add: startUnparsingJSON_def zero_unparser_def addObjectToObject_def jwPush_def
        JSON_STACK_DEPTH_def jw_write_defs)
  have l: "error l = JSON_ERROR_NOT_ARRAY" "stackpos l = 1"
    unfolding l_def s
    by (simp_all add: addStringToArray_def jw_write_defs JSON_ERROR_NOT_ARRAY_def)
  then have l': "endObject l = (JSON_ERROR_NOT_ARRAY, l)" "endArray l = (JSON_ERROR_NOT_ARRAY, l)"
    by (simp_all add: endObject_def endArray_def json_error_defs)
  have r: "error r = JSON_ERROR_OK" "stackpos r = 0"
    "fst (endArray r) = JSON_ERROR_STACK_EMPTY" "stackpos (snd (endArray r)) = 0"
    \<open>buffer (snd (endArray r)) = ''[]''\<close> "fst (endObject r) = JSON_ERROR_STACK_EMPTY"
    unfolding r_def
    by (simp_all add: startUnparsingJSON_def zero_unparser_def endArray_def endObject_def
        jwPop_def jw_write_defs JSON_ERROR_STACK_EMPTY_def)
  let ?k = \<open>\<lparr>buffer = ''["a":{"k":'', error = 0, callNo = 3,
      nodeStack = ?st(1 := \<lparr>nodeType = JSON_OBJECT, elementNo = 1\<rparr>),
      stackpos = 1, isPretty = 0\<rparr>\<close>
  have k: "jwObj s ''k'' = (JSON_ERROR_OK, ?k)"
    unfolding s by (simp add: jw_write_defs)
  have "jwPutraw ?k (replicate 65526 (CHR ''1'')) =
      ?k\<lparr>buffer := buffer ?k @ replicate 65526 (CHR ''1'')\<rparr>"
    unfolding jwPutraw_def by (rule foldl_jwPutch_room) (simp add: JSON_JSON_SIZE_def)
  with k have f: \<open>f = ?k\<lparr>buffer := ''["a":{"k":'' @ replicate 65526 (CHR ''1'')\<rparr>\<close>
    unfolding f_def by (simp add: addRawTextToObject_def)
  have f': "error f = JSON_ERROR_OK" "stackpos f = 1"
    "fst (endObject f) = JSON_ERROR_BUF_FULL" "stackpos (snd (endObject f)) = 0"
    "buffer (snd (endObject f)) = buffer f"
    unfolding f
    by (simp_all add: endObject_def jwPop_def jwPretty_def jwPutch_def JSON_JSON_SIZE_def
        json_error_defs)
  from l l' r f' show ?thesis
    unfolding l_def r_def f_def s_def by simp
qed

text \<open>
  C9, as the code has it: \<open>endObject\<close> and \<open>endArray\<close> are the same state transformer.
  On a handle with no latched error, with a frame above the root on top of the stack
  and with room in the buffer for the text of \<open>closing_text\<close>, each of them returns
  \<open>JSON_ERROR_OK\<close>, pops that frame and appends that text, which ends with the closer
  of the kind of the popped frame, whichever of the two was called; nothing else in
  the handle changes.
\<close>

theorem endObject_endArray_same:
  "endObject u = endArray u \<and>
   (error u = JSON_ERROR_OK \<and> 0 < stackpos u \<and>
    length (buffer u) + length (closing_text u) \<le> JSON_JSON_SIZE \<longrightarrow>
      endObject u =
        (JSON_ERROR_OK, u\<lparr>buffer := buffer u @ closing_text u, stackpos := stackpos u - 1\<rparr>) \<and>
      endArray u =
        (JSON_ERROR_OK, u\<lparr>buffer := buffer u @ closing_text u, stackpos := stackpos u - 1\<rparr>))"
proof -
  have same: "endObject u = endArray u"
    by (simp add: endObject_def endArray_def)
  with endArray_close [of u] show ?thesis
    by simp
qed

theorem endObject_endArray_same_witness:
  \<open>error (addObjectToObject (snd (startUnparsingJSON zero_unparser JSON_OBJECT JSON_COMPACT)) ''a'')
     = JSON_ERROR_OK \<and>
   0 < stackpos
     (addObjectToObject (snd (startUnparsingJSON zero_unparser JSON_OBJECT JSON_COMPACT)) ''a'') \<and>
   buffer (addObjectToObject (snd (startUnparsingJSON zero_unparser JSON_OBJECT JSON_COMPACT)) ''a'')
     = ''["a":{'' \<and>
   closing_text
     (addObjectToObject (snd (startUnparsingJSON zero_unparser JSON_OBJECT JSON_COMPACT)) ''a'')
     = ''}'' \<and>
   endObject (addObjectToObject (snd (startUnparsingJSON zero_unparser JSON_OBJECT JSON_COMPACT)) ''a'')
     = endArray (addObjectToObject (snd (startUnparsingJSON zero_unparser JSON_OBJECT JSON_COMPACT)) ''a'') \<and>
   fst (endArray
     (addObjectToObject (snd (startUnparsingJSON zero_unparser JSON_OBJECT JSON_COMPACT)) ''a''))
     = JSON_ERROR_OK \<and>
   buffer (snd (endArray
     (addObjectToObject (snd (startUnparsingJSON zero_unparser JSON_OBJECT JSON_COMPACT)) ''a'')))
     = ''["a":{}'' \<and>
   stackpos (snd (endArray
     (addObjectToObject (snd (startUnparsingJSON zero_unparser JSON_OBJECT JSON_COMPACT)) ''a'')))
     = 0\<close>
proof -
  define s where
    "s = addObjectToObject (snd (startUnparsingJSON zero_unparser JSON_OBJECT JSON_COMPACT)) ''a''"
  have e: \<open>s = \<lparr>buffer = ''["a":{'', error = 0, callNo = 2,
      nodeStack = (\<lambda>_. \<lparr>nodeType = JSON_PRIMITIVE, elementNo = 0\<rparr>)
        (0 := \<lparr>nodeType = JSON_OBJECT, elementNo = 1\<rparr>,
         1 := \<lparr>nodeType = JSON_OBJECT, elementNo = 0\<rparr>),
      stackpos = 1, isPretty = 0\<rparr>\<close>
    unfolding s_def
    by (simp add: startUnparsingJSON_def zero_unparser_def addObjectToObject_def jwPush_def
        JSON_STACK_DEPTH_def jw_write_defs)
  have h: "error s = JSON_ERROR_OK" "0 < stackpos s" \<open>buffer s = ''["a":{''\<close>
    \<open>closing_text s = ''}''\<close>
    "length (buffer s) + length (closing_text s) \<le> JSON_JSON_SIZE"
    unfolding e by (simp_all add: closing_text_def JSON_JSON_SIZE_def JSON_ERROR_OK_def)
  have one: "stackpos s = 1"
    unfolding e by simp
  from endObject_endArray_same [of s] h
  have same: "endObject s = endArray s"
    and res: "endArray s =
      (JSON_ERROR_OK, s\<lparr>buffer := buffer s @ closing_text s, stackpos := stackpos s - 1\<rparr>)"
    by simp_all
  have "fst (endArray s) = JSON_ERROR_OK" \<open>buffer (snd (endArray s)) = ''["a":{}''\<close>
    "stackpos (snd (endArray s)) = 0"
    unfolding res by (simp_all add: h(3,4) one)
  with same h show ?thesis
    unfolding s_def by simp
qed

text \<open>
  C10. \<open>getError\<close> is claimed to return the call counter, which is said to be
  incremented on every add, open and close attempt. The close calls never touch the
  counter, and the add and open calls leave it alone once an error is latched: after a
  successful \<open>endObject\<close>, and after an add call on a handle with a latched error,
  \<open>getError\<close> returns what it returned before.
\<close>

theorem getError_not_bumped_by_close:
  \<open>getError (addObjectToObject
       (snd (startUnparsingJSON zero_unparser JSON_OBJECT JSON_COMPACT)) ''a'') = 2 \<and>
   fst (endObject (addObjectToObject
       (snd (startUnparsingJSON zero_unparser JSON_OBJECT JSON_COMPACT)) ''a'')) = JSON_ERROR_OK \<and>
   getError (snd (endObject (addObjectToObject
       (snd (startUnparsingJSON zero_unparser JSON_OBJECT JSON_COMPACT)) ''a''))) = 2 \<and>
   error (addStringToArray
       (snd (startUnparsingJSON zero_unparser JSON_OBJECT JSON_COMPACT)) ''v'')
     = JSON_ERROR_NOT_ARRAY \<and>
   getError (addStringToArray
       (snd (startUnparsingJSON zero_unparser JSON_OBJECT JSON_COMPACT)) ''v'') = 2 \<and>
   getError (addStringToObject (addStringToArray
       (snd (startUnparsingJSON zero_unparser JSON_OBJECT JSON_COMPACT)) ''v'') ''k'' ''w'') = 2\<close>
  by (simp add: getError_def add_callNo jwObj_callNo jwArr_callNo end_callNo
      startUnparsingJSON_def zero_unparser_def addObjectToObject_def addStringToArray_def
      endObject_def jwPush_def jwPop_def JSON_STACK_DEPTH_def jw_write_defs
      JSON_ERROR_NOT_ARRAY_def)

text \<open>
  C10, as the code has it: \<open>getError\<close> returns the call counter \<open>callNo\<close> whatever the
  latched error code is. \<open>startUnparsingJSON\<close> sets the counter to 1; an add or open
  call increments it when no error is latched and leaves it unchanged otherwise; the
  close calls \<open>endObject\<close>, \<open>endArray\<close> and \<open>endJSON\<close> leave it unchanged, and they return
  the latched error code.
\<close>

theorem getError_is_call_counter:
  "getError u = callNo u \<and>
   getError (u\<lparr>error := e\<rparr>) = getError u \<and>
   getError (snd (startUnparsingJSON u rootType fmt)) = 1 \<and>
   getError (snd (jwObj u key)) = (if error u = JSON_ERROR_OK then getError u + 1 else getError u) \<and>
   getError (snd (jwArr u)) = (if error u = JSON_ERROR_OK then getError u + 1 else getError u) \<and>
   getError (addStringToObject u key str) =
     (if error u = JSON_ERROR_OK then getError u + 1 else getError u) \<and>
   getError (addRawTextToObject u key str) =
     (if error u = JSON_ERROR_OK then getError u + 1 else getError u) \<and>
   getError (addObjectToObject u key) =
     (if error u = JSON_ERROR_OK then getError u + 1 else getError u) \<and>
   getError (addArrayToObject u key) =
     (if error u = JSON_ERROR_OK then getError u + 1 else getError u) \<and>
   getError (addStringToArray u str) =
     (if error u = JSON_ERROR_OK then getError u + 1 else getError u) \<and>
   getError (addRawTextToArray u str) =
     (if error u = JSON_ERROR_OK then getError u + 1 else getError u) \<and>
   getError (addObjectToArray u) =
     (if error u = JSON_ERROR_OK then getError u + 1 else getError u) \<and>
   getError (addArrayToArray u) =
     (if error u = JSON_ERROR_OK then getError u + 1 else getError u) \<and>
   getError (snd (endObject u)) = getError u \<and>
   getError (snd (endArray u)) = getError u \<and>
   getError (snd (endJSON u)) = getError u \<and>
   fst (endObject u) = error (snd (endObject u)) \<and>
   fst (endArray u) = error (snd (endArray u)) \<and>
   fst (endJSON u) = error (snd (endJSON u))"
  unfolding getError_def add_callNo jwObj_callNo jwArr_callNo end_callNo
  using end_returns_error [of u]
  by (simp add: startUnparsingJSON_def)

section \<open>Properties of the tokenizer\<close>

lemmas scan_simps =
  jsmne_parse_def jsmne_init_def jsmne_parse_loop.simps jsmne_parse_char_def tok_at_def
  prim_start_def whitespace_def jsmne_alloc_token_def super_size_incr_def
  jsmne_parse_string_def jsmne_parse_primitive_def string_scan.simps primitive_scan.simps
  prim_delimiter_def simple_escape_def jsmne_fill_token_def close_search.simps
  JSON_TOKEN_SIZE_def json_error_defs Let_def

definition scenario1 :: string where
  \<open>scenario1 = ''{"a":1,"b":[true,null]}''\<close>

text \<open>A token as the tuple (type, start, end, size, parent).\<close>

definition token_fields :: "token_s \<Rightarrow> djson_type_e \<times> int \<times> int \<times> int \<times> int" where
  "token_fields t = (tok_type t, tok_start t, tok_end t, tok_size t, tok_parent t)"

text \<open>The bytes of the text between a token's \<open>start\<close> and \<open>end\<close>.\<close>

definition token_text :: "string \<Rightarrow> token_s \<Rightarrow> string" where
  "token_text js t = take (nat (tok_end t) - nat (tok_start t)) (drop (nat (tok_start t)) js)"

text \<open>
  C2. A failure of the scan is claimed to be returned by \<open>startParsingJSON\<close>. Only
  the out-of-memory code is: on the text \<open>}\<close> the scan fails with the
  invalid-character code and on \<open>{\<close> with the partial-input code, and in both cases
  \<open>startParsingJSON\<close> returns OK and stores the negative code, converted to
  \<open>size_t\<close>, as the length of the token table.
\<close>

theorem startParsingJSON_hides_failure:
  \<open>map_option fst (jsmne_parse jsmne_init ''}'' (strlen ''}'') (tokens_s h) JSON_TOKEN_SIZE)
     = Some JSON_ERROR_INVAL \<and>
   map_option fst (startParsingJSON h ''}'') = Some JSON_ERROR_OK \<and>
   map_option (length_s \<circ> snd) (startParsingJSON h ''}'') = Some 0xFFFFFFFFFFFFFFFE \<and>
   map_option fst (jsmne_parse jsmne_init ''{'' (strlen ''{'') (tokens_s h) JSON_TOKEN_SIZE)
     = Some JSON_ERROR_PART \<and>
   map_option fst (startParsingJSON h ''{'') = Some JSON_ERROR_OK \<and>
   map_option (length_s \<circ> snd) (startParsingJSON h ''{'') = Some 0xFFFFFFFFFFFFFFFD\<close>
  by (simp add: startParsingJSON_def strlen_def scan_simps)

text \<open>
  C3. A closing brace or bracket with no open container is claimed to make the parse
  fail with the invalid-character code. The code does so only while no token has been
  allocated; once the walk along the \<open>parent\<close> links ends at a root token without
  having met an open container, the loop is left and the closer is ignored. The texts
  \<open>{}}\<close> and \<open>"a"]\<close> are accepted with one token.
\<close>

theorem stray_closer_accepted:
  \<open>map_option (\<lambda>(r, p, t). (r, pos p, toknext p, toksuper p, token_fields (t 0)))
     (jsmne_parse jsmne_init ''{}}'' 3 T JSON_TOKEN_SIZE) =
     Some (1, 3, 1, -1, (JSON_OBJECT, 0, 2, 0, -1)) \<and>
   map_option (\<lambda>(r, p, t). (r, pos p, toknext p, toksuper p, token_fields (t 0)))
     (jsmne_parse jsmne_init ''"a"]'' 4 T JSON_TOKEN_SIZE) =
     Some (1, 4, 1, -1, (JSON_STRING, 1, 2, 0, -1)) \<and>
   map_option fst (jsmne_parse jsmne_init ''{}}'' 3 T JSON_TOKEN_SIZE)
     \<noteq> Some JSON_ERROR_INVAL \<and>
   map_option (\<lambda>(r, h). (r, length_s h))
     (startParsingJSON \<lparr>json = j, counter = c, length_s = l, tokens_s = T\<rparr> ''{}}'') =
     Some (JSON_ERROR_OK, 1)\<close>
  by (simp add: startParsingJSON_def strlen_def token_fields_def scan_simps)

text \<open>
  C4. The text \<open>{"a":1,"b":[true,null]}\<close> is claimed to give exactly 6 tokens, of
  the kinds Object, String, Primitive, String, Array, Primitive, Primitive. That
  sequence has seven members, and the scan allocates and returns seven.
\<close>

theorem scenario1_not_six_tokens:
  "map_option (\<lambda>(r, p, t). (r, toknext p))
     (jsmne_parse jsmne_init scenario1 (length scenario1) zero_tokens JSON_TOKEN_SIZE)
     = Some (7, 7) \<and>
   map_option (\<lambda>(r, p, t). toknext p)
     (jsmne_parse jsmne_init scenario1 (length scenario1) zero_tokens JSON_TOKEN_SIZE)
     \<noteq> Some 6"
  by (simp add: scenario1_def zero_tokens_def scan_simps)

text \<open>
  C4, as the code has it: on any token table the scan of
  \<open>{"a":1,"b":[true,null]}\<close> succeeds, returns 7 and leaves exactly 7 tokens:
  Object (size 2), String \<open>a\<close>, Primitive \<open>1\<close>, String \<open>b\<close>, Array (size 2),
  Primitive \<open>true\<close>, Primitive \<open>null\<close>; each key has size 1 and is the parent of its
  value. \<open>startParsingJSON\<close> returns OK and sets the table length to 7.
\<close>

theorem scenario1_seven_tokens:
  "map_option (\<lambda>(r, p, t). (r, pos p, toknext p, toksuper p, map (token_fields \<circ> t) [0 ..< 7]))
     (jsmne_parse jsmne_init scenario1 (length scenario1) T JSON_TOKEN_SIZE) =
   Some (7, 23, 7, -1,
     [(JSON_OBJECT, 0, 23, 2, -1),
      (JSON_STRING, 2, 3, 1, 0),
      (JSON_PRIMITIVE, 5, 6, 0, 1),
      (JSON_STRING, 8, 9, 1, 0),
      (JSON_ARRAY, 11, 22, 2, 3),
      (JSON_PRIMITIVE, 12, 16, 0, 4),
      (JSON_PRIMITIVE, 17, 21, 0, 4)]) \<and>
   map_option (\<lambda>(r, p, t). map (token_text scenario1 \<circ> t) [1, 2, 3, 5, 6])
     (jsmne_parse jsmne_init scenario1 (length scenario1) T JSON_TOKEN_SIZE) =
   Some [''a'', ''1'', ''b'', ''true'', ''null''] \<and>
   map_option (\<lambda>(r, h). (r, length_s h, counter h))
     (startParsingJSON \<lparr>json = j, counter = c, length_s = l, tokens_s = T\<rparr> scenario1) =
   Some (JSON_ERROR_OK, 7, 0)"
proof -
  have seven: "[0 ..< 7] = [0, 1, 2, 3, 4, 5, 6]"
    by (simp add: upt_rec)
  have len: "strlen scenario1 = 23" "length scenario1 = 23"
    by (simp_all add: strlen_def scenario1_def)
  have tokens: "map_option
      (\<lambda>(r, p, t). (r, pos p, toknext p, toksuper p, map (token_fields \<circ> t) [0, 1, 2, 3, 4, 5, 6]))
      (jsmne_parse jsmne_init scenario1 23 T JSON_TOKEN_SIZE) =
    Some (7, 23, 7, -1,
      [(JSON_OBJECT, 0, 23, 2, -1), (JSON_STRING, 2, 3, 1, 0), (JSON_PRIMITIVE, 5, 6, 0, 1),
       (JSON_STRING, 8, 9, 1, 0), (JSON_ARRAY, 11, 22, 2, 3),
       (JSON_PRIMITIVE, 12, 16, 0, 4), (JSON_PRIMITIVE, 17, 21, 0, 4)])"
    by (simp add: scenario1_def token_fields_def scan_simps)
  have texts: "map_option (\<lambda>(r, p, t). map (token_text scenario1 \<circ> t) [1, 2, 3, 5, 6])
      (jsmne_parse jsmne_init scenario1 23 T JSON_TOKEN_SIZE) =
    Some [''a'', ''1'', ''b'', ''true'', ''null'']"
    by (simp add: scenario1_def token_text_def scan_simps)
  have start: "map_option (\<lambda>(r, h). (r, length_s h, counter h))
      (startParsingJSON \<lparr>json = j, counter = c, length_s = l, tokens_s = T\<rparr> scenario1) =
    Some (JSON_ERROR_OK, 7, 0)"
    unfolding startParsingJSON_def len
    by (simp add: scenario1_def scan_simps)
  show ?thesis
    unfolding len seven using tokens texts start by simp
qed

text \<open>
  C5. Every well-formed JSON text within the capacity is claimed to parse. A text that
  is a single number or literal, such as \<open>1\<close> or \<open>true\<close>, is well-formed JSON, and the
  code means to accept it (after the primitive it guards the update of the superior
  token with \<open>toksuper != -1\<close>). But before scanning a primitive it reads
  \<open>tokens[parser->toksuper]\<close> without that guard, and at the root \<open>toksuper\<close> is \<open>-1\<close>:
  the read lies before the token array, and whether the text is accepted depends on
  what is stored there.
\<close>

theorem root_primitive_reads_before_table:
  \<open>jsmne_parse jsmne_init ''1'' 1 T JSON_TOKEN_SIZE = None \<and>
   jsmne_parse jsmne_init ''true'' 4 T JSON_TOKEN_SIZE = None \<and>
   startParsingJSON h ''1'' = None \<and>
   tok_at T JSON_TOKEN_SIZE (toksuper jsmne_init) = None\<close>
  by (simp add: startParsingJSON_def strlen_def scan_simps)

text \<open>
  C8. The cursor queries are claimed to be bounds checks against \<open>[0, length)\<close>, also
  for a table of length 0, and the kind queries to return \<open>-1\<close> out of bounds. The
  code compares with \<open>length - 1\<close>, which for the unsigned \<open>length = 0\<close> is the largest
  \<open>size_t\<close>: after parsing the empty text (0 tokens) \<open>hasCurrentToken\<close> and
  \<open>hasNextToken\<close> are true, \<open>currentTokenType\<close> and \<open>nextTokenType\<close> return the kinds
  of the stale cells 0 and 1 instead of \<open>-1\<close>, and after \<open>nextToken\<close> the query
  \<open>hasBeforeToken\<close>, which has no upper bound at all, is true as well.
\<close>

theorem cursor_on_empty_table:
  "startParsingJSON \<lparr>json = j, counter = c, length_s = l, tokens_s = T\<rparr> [] =
     Some (JSON_ERROR_OK, \<lparr>json = [], counter = 0, length_s = 0, tokens_s = T\<rparr>) \<and>
   hasCurrentToken \<lparr>json = [], counter = 0, length_s = 0, tokens_s = T\<rparr> \<and>
   hasNextToken \<lparr>json = [], counter = 0, length_s = 0, tokens_s = T\<rparr> \<and>
   hasBeforeToken (nextToken \<lparr>json = [], counter = 0, length_s = 0, tokens_s = T\<rparr>) \<and>
   currentTokenType \<lparr>json = [], counter = 0, length_s = 0, tokens_s = T\<rparr>
     = Some (type_code (tok_type (T 0))) \<and>
   nextTokenType \<lparr>json = [], counter = 0, length_s = 0, tokens_s = T\<rparr>
     = Some (type_code (tok_type (T 1))) \<and>
   beforeTokenType (nextToken \<lparr>json = [], counter = 0, length_s = 0, tokens_s = T\<rparr>)
     = Some (type_code (tok_type (T 0))) \<and>
   type_code (tok_type (T 0)) \<noteq> -1 \<and> type_code (tok_type (T 1)) \<noteq> -1"
proof -
  have "type_code k \<noteq> -1" for k
    by (cases k) simp_all
  moreover have "(0 :: 64 word) < -1"
    by (simp add: word_gt_0)
  ultimately show ?thesis
    by (simp add: startParsingJSON_def strlen_def scan_simps hasCurrentToken_def
        hasNextToken_def hasBeforeToken_def nextToken_def currentTokenType_def
        nextTokenType_def beforeTokenType_def token_type_at_def)
qed

subsection \<open>Unterminated strings\<close>

text \<open>
  The body of an unterminated string, as the specification describes strings: what
  follows the opening quote holds no closing quote, and every backslash is followed by
  one of \<open>" / \ b f r n t\<close>, or by \<open>u\<close> and four hexadecimal digits, unless the text
  ends first.
\<close>

function unterminated_body :: "string \<Rightarrow> bool" where
  "unterminated_body [] = True"
| \<open>unterminated_body (c # cs) =
     (if c = CHR ''"'' then False
      else if c = CHR 0x5C then
        (case cs of
           [] \<Rightarrow> True
         | d # ds \<Rightarrow>
             if simple_escape d then unterminated_body ds
             else if d = CHR ''u''
               then list_all is_hex (take 4 ds) \<and> unterminated_body (drop 4 ds)
             else False)
      else unterminated_body cs)\<close>
  by pat_completeness auto
termination
  by (relation "measure length") auto

lemma hex_scan_append:
  "list_all is_hex (take n ds) \<Longrightarrow> CHR 0x00 \<notin> set ds \<Longrightarrow>
   hex_scan (xs @ ds) (length xs + length ds) (length xs) n =
     Some (length xs + min n (length ds))"
proof (induction n arbitrary: xs ds)
  case 0
  then show ?case by simp
next
  case (Suc n)
  show ?case
  proof (cases ds)
    case Nil
    then show ?thesis by simp
  next
    case (Cons d ds')
    with Suc.prems have d: "is_hex d" "d \<noteq> CHR 0x00"
      and rest: "list_all is_hex (take n ds')" "CHR 0x00 \<notin> set ds'"
      by auto
    have "hex_scan ((xs @ [d]) @ ds') (length (xs @ [d]) + length ds') (length (xs @ [d])) n =
        Some (length (xs @ [d]) + min n (length ds'))"
      by (rule Suc.IH [OF rest])
    then show ?thesis
      using d Cons by simp
  qed
qed

lemma string_scan_end: "string_scan js (length js) (length js) = StrPartial"
  by (subst string_scan.simps) simp

lemma string_scan_unterminated:
  "unterminated_body body \<Longrightarrow> CHR 0x00 \<notin> set body \<Longrightarrow>
   string_scan (xs @ body) (length xs + length body) (length xs) = StrPartial"
proof (induction body arbitrary: xs rule: unterminated_body.induct)
  case 1
  then show ?case
    using string_scan_end [of xs] by simp
next
  case (2 c cs)
  let ?js = "xs @ c # cs"
  let ?len = "length xs + length (c # cs)"
  from "2.prems" have c: \<open>c \<noteq> CHR ''"''\<close> "c \<noteq> CHR 0x00" and nul: "CHR 0x00 \<notin> set cs"
    by (auto split: if_splits)
  have at: "?js ! length xs = c" "length xs < ?len"
    by simp_all
  show ?case
  proof (cases "c = CHR 0x5C")
    case False
    with "2.prems" c have "unterminated_body cs"
      by simp
    from "2.IH"(3) [OF c(1) False this nul, of "xs @ [c]"]
    have "string_scan ?js ?len (length xs + 1) = StrPartial"
      by simp
    then show ?thesis
      using at c False by (subst string_scan.simps) simp
  next
    case bs: True
    show ?thesis
    proof (cases cs)
      case Nil
      have "string_scan (xs @ [c]) (length (xs @ [c])) (length (xs @ [c])) = StrPartial"
        by (rule string_scan_end)
      then show ?thesis
        using Nil c by (subst string_scan.simps) simp
    next
      case (Cons d ds)
      have at1: "?js ! (length xs + 1) = d" "length xs + 1 < ?len"
        using Cons by (simp_all add: nth_append)
      from nul Cons have nul': "CHR 0x00 \<notin> set ds"
        by simp
      show ?thesis
      proof (cases "simple_escape d")
        case True
        with "2.prems" c bs Cons have "unterminated_body ds"
          by simp
        from "2.IH"(1) [OF c(1) bs Cons True this nul', of "xs @ [c, d]"]
        have "string_scan ?js ?len (length xs + 1 + 1) = StrPartial"
          using Cons by simp
        then show ?thesis
          using at at1 c bs True by (subst string_scan.simps) simp
      next
        case False
        with "2.prems" c bs Cons have u: "d = CHR ''u''"
          and hex: "list_all is_hex (take 4 ds)" and rest: "unterminated_body (drop 4 ds)"
          by (auto split: if_splits)
        from nul' have nul'': "CHR 0x00 \<notin> set (drop 4 ds)"
          by (auto dest: in_set_dropD)
        have "hex_scan ((xs @ [c, d]) @ ds) (length (xs @ [c, d]) + length ds)
            (length (xs @ [c, d])) 4 = Some (length (xs @ [c, d]) + min 4 (length ds))"
          by (rule hex_scan_append [OF hex nul'])
        then have h: "hex_scan ?js ?len (length xs + 1 + 1) 4 =
            Some (length xs + 2 + min 4 (length ds))"
          using Cons by simp
        define ys where "ys = xs @ c # d # take 4 ds"
        have ys: "ys @ drop 4 ds = ?js"
          "length ys = length xs + 2 + min 4 (length ds)"
          "length xs + 2 + min 4 (length ds) + length (drop 4 ds) = ?len"
          using Cons by (simp_all add: ys_def)
        have "string_scan ?js ?len (length xs + 2 + min 4 (length ds)) =
            string_scan (ys @ drop 4 ds) (length ys + length (drop 4 ds)) (length ys)"
          by (simp only: ys)
        also have "\<dots> = StrPartial"
          by (rule "2.IH"(2) [OF c(1) bs Cons False u rest nul''])
        finally show ?thesis
          using at at1 c bs False u h by (subst string_scan.simps) simp
      qed
    qed
  qed
qed

text \<open>
  C6. Every text that contains an unterminated string is claimed to yield the
  partial-input code and not the invalid-character code. The text \<open>"\q\<close> is nothing
  but an unterminated string, and its invalid escape makes the scan return the
  invalid-character code; in \<open>]"a\<close> the scan fails at the bracket before it reaches
  the string.
\<close>

theorem unterminated_string_invalid:
  \<open>map_option fst
     (jsmne_parse jsmne_init [CHR ''"'', CHR 0x5C, CHR ''q''] 3 zero_tokens JSON_TOKEN_SIZE)
     = Some JSON_ERROR_INVAL \<and>
   map_option fst (jsmne_parse jsmne_init '']"a'' 3 zero_tokens JSON_TOKEN_SIZE)
     = Some JSON_ERROR_INVAL \<and>
   JSON_ERROR_INVAL \<noteq> JSON_ERROR_PART\<close>
  by (simp add: zero_tokens_def scan_simps)

text \<open>
  C6, as the code has it: when the scan of a text (a C string, so without NUL) has
  reached the opening quote of a string that is unterminated and has no invalid
  escape, the parse returns the partial-input code, with the parser put back at the
  quote and the token table as it was. In particular this is what \<open>jsmne_parse\<close>
  returns when it is started at that quote.
\<close>

theorem unterminated_string_partial:
  assumes \<open>js = pre @ CHR ''"'' # body\<close>
    and "pos p = length pre"
    and "CHR 0x00 \<notin> set body"
    and "unterminated_body body"
  shows "jsmne_parse_loop p js (length js) tokens num_tokens k = Some (JSON_ERROR_PART, p, tokens) \<and>
         jsmne_parse p js (length js) tokens num_tokens = Some (JSON_ERROR_PART, p, tokens)"
proof -
  have at: \<open>js ! pos p = CHR ''"''\<close> "pos p < length js"
    using assms(1,2) by simp_all
  have "string_scan ((pre @ [CHR 0x22]) @ body) (length (pre @ [CHR 0x22]) + length body)
      (length (pre @ [CHR 0x22])) = StrPartial"
    by (rule string_scan_unterminated [OF assms(4,3)])
  then have "string_scan js (length js) (pos p + 1) = StrPartial"
    using assms(1,2) by simp
  then have "jsmne_parse_string p js (length js) tokens num_tokens = (JSON_ERROR_PART, p, tokens)"
    by (simp add: jsmne_parse_string_def)
  then have "jsmne_parse_char p js (length js) tokens num_tokens k' =
      Some (Return JSON_ERROR_PART p tokens)" for k'
    using at by (simp add: jsmne_parse_char_def JSON_ERROR_PART_def)
  then have "jsmne_parse_loop p js (length js) tokens num_tokens k' =
      Some (JSON_ERROR_PART, p, tokens)" for k'
    using at by (subst jsmne_parse_loop.simps) simp
  then show ?thesis
    by (simp add: jsmne_parse_def)
qed

theorem unterminated_string_partial_witness:
  \<open>CHR 0x00 \<notin> set (''ab'' @ [CHR 0x5C, CHR ''n'']) \<and>
   unterminated_body (''ab'' @ [CHR 0x5C, CHR ''n'']) \<and>
   jsmne_parse jsmne_init (''"ab'' @ [CHR 0x5C, CHR ''n'']) 5 zero_tokens JSON_TOKEN_SIZE
     = Some (JSON_ERROR_PART, jsmne_init, zero_tokens)\<close>
proof -
  have h: \<open>''"ab'' @ [CHR 0x5C, CHR ''n''] = [] @ CHR ''"'' # (''ab'' @ [CHR 0x5C, CHR ''n''])\<close>
    "pos jsmne_init = length ([] :: string)"
    "CHR 0x00 \<notin> set (''ab'' @ [CHR 0x5C, CHR ''n''])"
    "unterminated_body (''ab'' @ [CHR 0x5C, CHR ''n''])"
    by (simp_all add: jsmne_init_def simple_escape_def)
  have len: \<open>length (''"ab'' @ [CHR 0x5C, CHR ''n'']) = 5\<close>
    by simp
  from unterminated_string_partial [OF h, of zero_tokens JSON_TOKEN_SIZE 0, unfolded len] h(3,4)
  show ?thesis
    by blast
qed

subsection \<open>What one pass of the scan does to the table\<close>

definition tok_open :: "token_s \<Rightarrow> bool" where
  "tok_open tk \<longleftrightarrow> tok_start tk \<noteq> -1 \<and> tok_end tk = -1"

text \<open>
  \<open>pushed t t' idx s ty st en\<close>: table \<open>t'\<close> is \<open>t\<close> with a new token \<open>idx\<close> of the given
  type and span below the superior \<open>s\<close>, whose size has been incremented.
\<close>

definition pushed ::
  "token_table \<Rightarrow> token_table \<Rightarrow> nat \<Rightarrow> int \<Rightarrow> djson_type_e \<Rightarrow> int \<Rightarrow> int \<Rightarrow> bool" where
  "pushed t t' idx s ty st en \<longleftrightarrow>
     (\<forall>j. j \<noteq> idx \<longrightarrow>
        tok_type (t' j) = tok_type (t j) \<and> tok_start (t' j) = tok_start (t j) \<and>
        tok_end (t' j) = tok_end (t j) \<and> tok_parent (t' j) = tok_parent (t j) \<and>
        tok_size (t' j) = (if int j = s then tok_size (t j) + 1 else tok_size (t j))) \<and>
     tok_type (t' idx) = ty \<and> tok_start (t' idx) = st \<and> tok_end (t' idx) = en \<and>
     tok_parent (t' idx) = s \<and> tok_size (t' idx) = 0"

definition opener :: "djson_type_e \<Rightarrow> char" where
  "opener ty = (if ty = JSON_OBJECT then CHR ''{'' else CHR ''['')"

definition closer :: "djson_type_e \<Rightarrow> char" where
  "closer ty = (if ty = JSON_OBJECT then CHR ''}'' else CHR '']'')"

definition is_container :: "djson_type_e \<Rightarrow> bool" where
  "is_container ty \<longleftrightarrow> ty = JSON_OBJECT \<or> ty = JSON_ARRAY"

lemma comma_search_range:
  "comma_search t N s = s \<or> (0 \<le> comma_search t N s \<and> comma_search t N s < int N)"
  by (induction N) auto

lemma close_search_found:
  assumes "close_search t n ty j = Some (CloseFound i)"
    and "\<forall>m\<le>j. tok_parent (t m) < int m"
  shows "i \<le> j \<and> tok_open (t i) \<and> tok_type (t i) = ty"
  using assms
proof (induction j rule: less_induct)
  case (less j)
  show ?case
  proof (cases "tok_open (t j)")
    case True
    with less.prems(1) show ?thesis
      by (subst (asm) close_search.simps) (auto simp: tok_open_def split: if_splits)
  next
    case False
    with less.prems(1) have par: "0 \<le> tok_parent (t j)"
      and rec: "close_search t n ty (nat (tok_parent (t j))) = Some (CloseFound i)"
      by (subst (asm) close_search.simps; auto simp: tok_open_def split: if_splits)+
    from less.prems(2) have lt: "nat (tok_parent (t j)) < j"
      using par by (metis le_refl nat_less_iff)
    have "\<forall>m\<le>nat (tok_parent (t j)). tok_parent (t m) < int m"
      using less.prems(2) lt by auto
    from less.IH [OF lt rec this] lt show ?thesis
      by auto
  qed
qed

lemma primitive_scan_le: "primitive_scan js len i = PrimFound j \<Longrightarrow> i \<le> len \<Longrightarrow> j \<le> len"
proof (induction js len i rule: primitive_scan.induct)
  case (1 js len i)
  then show ?case
    by (subst (asm) (2) primitive_scan.simps) (auto split: if_splits)
qed

lemma string_scan_lt: "string_scan js len i = StrQuote j \<Longrightarrow> j < len"
proof (induction js len i rule: string_scan.induct)
  case (1 js len i)
  then show ?case
    by (subst (asm) (4) string_scan.simps) (auto split: if_splits option.splits)
qed

text \<open>The three things a pass that goes on can have done.\<close>

definition step_push ::
  "string \<Rightarrow> jsmne_parser \<Rightarrow> token_table \<Rightarrow> jsmne_parser \<Rightarrow> token_table \<Rightarrow> bool" where
  "step_push js p t p' t' \<longleftrightarrow>
     toknext p' = toknext p + 1 \<and> pos p \<le> pos p' \<and>
     (\<exists>ty st en.
        pushed t t' (toknext p) (toksuper p) ty st en \<and> 0 \<le> st \<and>
        (if is_container ty
         then st = int (pos p) \<and> en = -1 \<and> js ! pos p = opener ty \<and> pos p' = pos p \<and>
              toksuper p' = int (toknext p)
         else st \<le> en \<and> en \<le> int (pos p') + 1 \<and> toksuper p' = toksuper p))"

definition step_close ::
  "string \<Rightarrow> jsmne_parser \<Rightarrow> token_table \<Rightarrow> jsmne_parser \<Rightarrow> token_table \<Rightarrow> bool" where
  "step_close js p t p' t' \<longleftrightarrow>
     toknext p' = toknext p \<and> pos p' = pos p \<and>
     (\<exists>i<toknext p.
        tok_open (t i) \<and> is_container (tok_type (t i)) \<and> js ! pos p = closer (tok_type (t i)) \<and>
        t' = t(i := (t i)\<lparr>tok_end := int (pos p) + 1\<rparr>) \<and> toksuper p' = tok_parent (t i))"

definition step_same ::
  "jsmne_parser \<Rightarrow> token_table \<Rightarrow> jsmne_parser \<Rightarrow> token_table \<Rightarrow> bool" where
  "step_same p t p' t' \<longleftrightarrow>
     toknext p' = toknext p \<and> pos p' = pos p \<and> t' = t \<and>
     -1 \<le> toksuper p' \<and> toksuper p' < int (toknext p)"

lemma step_pushI:
  assumes "pushed t t' (toknext p) (toksuper p) ty st en"
    and "toknext p' = toknext p + 1" and "pos p \<le> pos p'" and "0 \<le> st"
    and "if is_container ty
         then st = int (pos p) \<and> en = -1 \<and> js ! pos p = opener ty \<and> pos p' = pos p \<and>
              toksuper p' = int (toknext p)
         else st \<le> en \<and> en \<le> int (pos p') + 1 \<and> toksuper p' = toksuper p"
  shows "step_push js p t p' t'"
  unfolding step_push_def using assms by blast

lemma pushed_container:
  assumes "s < int idx" "-1 \<le> s" "idx < n"
    and "super_size_incr (t(idx := (t idx)\<lparr>tok_start := -1, tok_end := -1, tok_size := 0,
            tok_parent := -1\<rparr>)) n s = Some t2"
  shows "pushed t
      (t2(idx := (t2 idx)\<lparr>tok_parent := (if s \<noteq> -1 then s else tok_parent (t2 idx)),
            tok_type := ty, tok_start := st\<rparr>))
      idx s ty st (-1)"
  using assms
  by (auto simp: pushed_def super_size_incr_def tok_at_def split: if_splits option.splits)

lemma pushed_leaf:
  assumes "s < int idx" "-1 \<le> s" "idx < n"
    and "super_size_incr
          ((t(idx := (t idx)\<lparr>tok_start := -1, tok_end := -1, tok_size := 0, tok_parent := -1\<rparr>))
             (idx := (jsmne_fill_token
                ((t(idx := (t idx)\<lparr>tok_start := -1, tok_end := -1, tok_size := 0,
                     tok_parent := -1\<rparr>)) idx) ty st en)\<lparr>tok_parent := s\<rparr>)) n s = Some t2"
  shows "pushed t t2 idx s ty st en"
  using assms
  by (auto simp: pushed_def super_size_incr_def tok_at_def jsmne_fill_token_def
      split: if_splits option.splits)

lemma jsmne_parse_string_ok:
  assumes "jsmne_parse_string p js len t n = (r, p1, t1)" and "\<not> r < 0"
  shows "\<exists>i. string_scan js len (pos p + 1) = StrQuote i \<and> toknext p < n \<and>
           p1 = p\<lparr>pos := i, toknext := toknext p + 1\<rparr> \<and>
           t1 = (t(toknext p := (t (toknext p))\<lparr>tok_start := -1, tok_end := -1, tok_size := 0,
                      tok_parent := -1\<rparr>))
                  (toknext p := (jsmne_fill_token
                     ((t(toknext p := (t (toknext p))\<lparr>tok_start := -1, tok_end := -1,
                          tok_size := 0, tok_parent := -1\<rparr>)) (toknext p))
                     JSON_STRING (int (pos p) + 1) (int i))\<lparr>tok_parent := toksuper p\<rparr>)"
  using assms
  by (auto simp: jsmne_parse_string_def jsmne_alloc_token_def Let_def json_error_defs
      split: string_result.splits if_splits)

lemma jsmne_parse_primitive_ok:
  assumes "jsmne_parse_primitive p js len t n = (r, p1, t1)" and "\<not> r < 0"
  shows "\<exists>i. primitive_scan js len (pos p) = PrimFound i \<and> toknext p < n \<and>
           p1 = p\<lparr>pos := i - 1, toknext := toknext p + 1\<rparr> \<and>
           t1 = (t(toknext p := (t (toknext p))\<lparr>tok_start := -1, tok_end := -1, tok_size := 0,
                      tok_parent := -1\<rparr>))
                  (toknext p := (jsmne_fill_token
                     ((t(toknext p := (t (toknext p))\<lparr>tok_start := -1, tok_end := -1,
                          tok_size := 0, tok_parent := -1\<rparr>)) (toknext p))
                     JSON_PRIMITIVE (int (pos p)) (int i))\<lparr>tok_parent := toksuper p\<rparr>)"
  using assms
  by (auto simp: jsmne_parse_primitive_def jsmne_alloc_token_def Let_def json_error_defs
      split: prim_result.splits if_splits)

lemma prim_start_not_punct:
  assumes "prim_start c"
  shows "c \<noteq> CHR ''{''" "c \<noteq> CHR ''[''" "c \<noteq> CHR ''}''" "c \<noteq> CHR '']''" "c \<noteq> CHR 0x22"
    "\<not> whitespace c" "c \<noteq> CHR '':''" "c \<noteq> CHR '',''"
  using assms by (auto simp: prim_start_def whitespace_def)

lemma parse_char_open:
  assumes "js ! pos p = CHR ''{'' \<or> js ! pos p = CHR ''[''"
  shows "jsmne_parse_char p js len t n k =
     (case jsmne_alloc_token p t n of
        None \<Rightarrow> Some (Return JSON_ERROR_NOMEM p t)
      | Some (p1, t1) \<Rightarrow>
          (case super_size_incr t1 n (toksuper p1) of
             None \<Rightarrow> None
           | Some t2 \<Rightarrow>
               Some (Continue (p1\<lparr>toksuper := int (toknext p1) - 1\<rparr>)
                 (t2(toknext p := (t2 (toknext p))
                    \<lparr>tok_parent := (if toksuper p1 \<noteq> -1 then toksuper p1
                                     else tok_parent (t2 (toknext p))),
                     tok_type := (if js ! pos p = CHR ''{'' then JSON_OBJECT else JSON_ARRAY),
                     tok_start := int (pos p)\<rparr>))
                 (k + 1))))"
  using assms by (simp add: jsmne_parse_char_def)

lemma parse_char_close:
  assumes "js ! pos p = CHR ''}'' \<or> js ! pos p = CHR '']''"
  shows "jsmne_parse_char p js len t n k =
     (if toknext p < 1 then Some (Return JSON_ERROR_INVAL p t)
      else
        (case close_search t n
                (if js ! pos p = CHR ''}'' then JSON_OBJECT else JSON_ARRAY) (toknext p - 1) of
           None \<Rightarrow> None
         | Some CloseMismatch \<Rightarrow> Some (Return JSON_ERROR_INVAL p t)
         | Some (CloseFound i) \<Rightarrow>
             Some (Continue (p\<lparr>toksuper := tok_parent (t i)\<rparr>)
               (t(i := (t i)\<lparr>tok_end := int (pos p) + 1\<rparr>)) k)
         | Some CloseNone \<Rightarrow> Some (Continue p t k)))"
proof -
  from assms have "\<not> (js ! pos p = CHR ''{'' \<or> js ! pos p = CHR ''['')"
    by auto
  with assms show ?thesis
    by (simp add: jsmne_parse_char_def)
qed

lemma parse_char_quote:
  assumes "js ! pos p = CHR 0x22"
  shows "jsmne_parse_char p js len t n k =
     (case jsmne_parse_string p js len t n of
        (r, p1, t1) \<Rightarrow>
          if r < 0 then Some (Return r p1 t1)
          else (case super_size_incr t1 n (toksuper p1) of
                  None \<Rightarrow> None
                | Some t2 \<Rightarrow> Some (Continue p1 t2 (k + 1))))"
  using assms by (simp add: jsmne_parse_char_def)

lemma parse_char_prim:
  assumes "prim_start (js ! pos p)"
  shows "jsmne_parse_char p js len t n k =
     (case tok_at t n (toksuper p) of
        None \<Rightarrow> None
      | Some ts \<Rightarrow>
          if tok_type ts = JSON_OBJECT \<or> (tok_type ts = JSON_STRING \<and> tok_size ts \<noteq> 0)
          then Some (Return JSON_ERROR_INVAL p t)
          else
            (case jsmne_parse_primitive p js len t n of
               (r, p1, t1) \<Rightarrow>
                 if r < 0 then Some (Return r p1 t1)
                 else (case super_size_incr t1 n (toksuper p1) of
                         None \<Rightarrow> None
                       | Some t2 \<Rightarrow> Some (Continue p1 t2 (k + 1)))))"
  using assms prim_start_not_punct [OF assms] by (simp add: jsmne_parse_char_def)

lemma parse_char_comma:
  "js ! pos p = CHR '','' \<Longrightarrow>
   jsmne_parse_char p js len t n k =
     (case tok_at t n (toksuper p) of
        None \<Rightarrow> None
      | Some ts \<Rightarrow>
          if tok_type ts \<noteq> JSON_ARRAY \<and> tok_type ts \<noteq> JSON_OBJECT
          then Some (Continue
                 (p\<lparr>toksuper := comma_search t (toknext p) (tok_parent ts)\<rparr>) t k)
          else Some (Continue p t k))"
  by (simp add: jsmne_parse_char_def whitespace_def)

lemma parse_char_other:
  assumes "\<not> (c = CHR ''{'' \<or> c = CHR ''['')" "\<not> (c = CHR ''}'' \<or> c = CHR '']'')"
    "c \<noteq> CHR 0x22" "\<not> prim_start c" "c \<noteq> CHR '',''" "c = js ! pos p"
  shows "jsmne_parse_char p js len t n k =
     (if whitespace c then Some (Continue p t k)
      else if c = CHR '':'' then Some (Continue (p\<lparr>toksuper := int (toknext p) - 1\<rparr>) t k)
      else Some (Return JSON_ERROR_INVAL p t))"
  using assms by (simp add: jsmne_parse_char_def)

lemma step_open:
  assumes step: "jsmne_parse_char p js len t n k = Some (Continue p' t' k')"
    and opn: "js ! pos p = CHR ''{'' \<or> js ! pos p = CHR ''[''"
    and sup: "-1 \<le> toksuper p" "toksuper p < int (toknext p)"
  shows "step_push js p t p' t' \<and> k' = k + 1 \<and> pos p' = pos p"
proof -
  let ?ty = "if js ! pos p = CHR ''{'' then JSON_OBJECT else JSON_ARRAY"
  let ?t1 = "t(toknext p := (t (toknext p))\<lparr>tok_start := -1, tok_end := -1,
          tok_size := 0, tok_parent := -1\<rparr>)"
  from step have room: "toknext p < n"
    unfolding parse_char_open [OF opn] jsmne_alloc_token_def
    by (simp split: if_splits)
  then have alloc: "jsmne_alloc_token p t n = Some (p\<lparr>toknext := toknext p + 1\<rparr>, ?t1)"
    by (simp add: jsmne_alloc_token_def)
  from step obtain t2 where t2: "super_size_incr ?t1 n (toksuper p) = Some t2"
    unfolding parse_char_open [OF opn] alloc
    by (cases "super_size_incr ?t1 n (toksuper p)") simp_all
  from step have p': "p' = p\<lparr>toknext := toknext p + 1, toksuper := int (toknext p)\<rparr>"
    and k': "k' = k + 1"
    and t': "t' = t2(toknext p := (t2 (toknext p))
                 \<lparr>tok_parent := (if toksuper p \<noteq> -1 then toksuper p
                                  else tok_parent (t2 (toknext p))),
                  tok_type := ?ty, tok_start := int (pos p)\<rparr>)"
    unfolding parse_char_open [OF opn] alloc
    using t2 by auto
  have pu: "pushed t t' (toknext p) (toksuper p) ?ty (int (pos p)) (-1)"
    unfolding t' by (rule pushed_container [OF sup(2,1) room t2])
  have "step_push js p t p' t'"
    by (rule step_pushI [OF pu]) (use opn p' in \<open>auto simp: is_container_def opener_def\<close>)
  with k' p' show ?thesis
    by simp
qed

lemma step_closeI:
  assumes "i < toknext p" and "tok_open (t i)" and "is_container (tok_type (t i))"
    and "js ! pos p = closer (tok_type (t i))"
    and "t' = t(i := (t i)\<lparr>tok_end := int (pos p) + 1\<rparr>)"
    and "toksuper p' = tok_parent (t i)" and "toknext p' = toknext p" and "pos p' = pos p"
  shows "step_close js p t p' t'"
  unfolding step_close_def using assms by blast

lemma step_closer:
  assumes step: "jsmne_parse_char p js len t n k = Some (Continue p' t' k')"
    and cls: "js ! pos p = CHR ''}'' \<or> js ! pos p = CHR '']''"
    and sup: "-1 \<le> toksuper p" "toksuper p < int (toknext p)"
    and links: "\<forall>m<toknext p. -1 \<le> tok_parent (t m) \<and> tok_parent (t m) < int m"
  shows "(step_close js p t p' t' \<or> step_same p t p' t') \<and> k' = k \<and> pos p' = pos p"
proof -
  let ?ty = "if js ! pos p = CHR ''}'' then JSON_OBJECT else JSON_ARRAY"
  from step have some: "1 \<le> toknext p"
    unfolding parse_char_close [OF cls] by (simp split: if_splits)
  with step have st: "(case close_search t n ?ty (toknext p - 1) of
         None \<Rightarrow> None
       | Some CloseMismatch \<Rightarrow> Some (Return JSON_ERROR_INVAL p t)
       | Some (CloseFound i) \<Rightarrow>
           Some (Continue (p\<lparr>toksuper := tok_parent (t i)\<rparr>)
             (t(i := (t i)\<lparr>tok_end := int (pos p) + 1\<rparr>)) k)
       | Some CloseNone \<Rightarrow> Some (Continue p t k)) = Some (Continue p' t' k')"
    unfolding parse_char_close [OF cls] by simp
  then obtain r where r: "close_search t n ?ty (toknext p - 1) = Some r"
    by (cases "close_search t n ?ty (toknext p - 1)") simp_all
  show ?thesis
  proof (cases r)
    case CloseMismatch
    with st r show ?thesis by simp
  next
    case CloseNone
    with st r have "p' = p" "t' = t" "k' = k" by simp_all
    then show ?thesis
      using sup by (simp add: step_same_def)
  next
    case (CloseFound i)
    with st r have p': "p' = p\<lparr>toksuper := tok_parent (t i)\<rparr>"
      and t': "t' = t(i := (t i)\<lparr>tok_end := int (pos p) + 1\<rparr>)"
      and k': "k' = k"
      by simp_all
    have "\<forall>m\<le>toknext p - 1. tok_parent (t m) < int m"
      using links some by auto
    from close_search_found [OF r [unfolded CloseFound] this]
    have "i < toknext p" "tok_open (t i)" "tok_type (t i) = ?ty"
      using some by auto
    then have "step_close js p t p' t'"
      by (intro step_closeI [where i = i] t')
        (use p' cls in \<open>auto simp: is_container_def closer_def\<close>)
    then show ?thesis using k' p' by simp
  qed
qed

lemma step_quote:
  assumes step: "jsmne_parse_char p js len t n k = Some (Continue p' t' k')"
    and quote: "js ! pos p = CHR 0x22"
    and sup: "-1 \<le> toksuper p" "toksuper p < int (toknext p)"
  shows "step_push js p t p' t' \<and> k' = k + 1 \<and> pos p' < len"
proof -
  obtain r p1 t1 where str: "jsmne_parse_string p js len t n = (r, p1, t1)"
    by (cases "jsmne_parse_string p js len t n") auto
  from step have r: "\<not> r < 0"
    unfolding parse_char_quote [OF quote] str by (simp split: if_splits)
  with step have p': "p' = p1" and inc: "super_size_incr t1 n (toksuper p1) = Some t'"
    and k': "k' = k + 1"
    unfolding parse_char_quote [OF quote] str
    by (simp_all split: option.splits)
  from jsmne_parse_string_ok [OF str r] obtain i where
    scan: "string_scan js len (pos p + 1) = StrQuote i" and room: "toknext p < n"
    and p1: "p1 = p\<lparr>pos := i, toknext := toknext p + 1\<rparr>"
    and t1: "t1 = (t(toknext p := (t (toknext p))\<lparr>tok_start := -1, tok_end := -1, tok_size := 0,
                    tok_parent := -1\<rparr>))
                (toknext p := (jsmne_fill_token
                   ((t(toknext p := (t (toknext p))\<lparr>tok_start := -1, tok_end := -1,
                        tok_size := 0, tok_parent := -1\<rparr>)) (toknext p))
                   JSON_STRING (int (pos p) + 1) (int i))\<lparr>tok_parent := toksuper p\<rparr>)"
    by blast
  have pu: "pushed t t' (toknext p) (toksuper p) JSON_STRING (int (pos p) + 1) (int i)"
    using inc unfolding t1 p1 by (intro pushed_leaf [OF sup(2,1) room]) simp
  have ge: "pos p + 1 \<le> i"
    using string_scan_ge [OF scan] .
  have "step_push js p t p' t'"
    by (rule step_pushI [OF pu]) (use ge p' p1 in \<open>auto simp: is_container_def\<close>)
  with k' p' p1 string_scan_lt [OF scan] show ?thesis
    by simp
qed

lemma step_prim:
  assumes step: "jsmne_parse_char p js len t n k = Some (Continue p' t' k')"
    and prim: "prim_start (js ! pos p)"
    and sup: "-1 \<le> toksuper p" "toksuper p < int (toknext p)"
    and pos: "pos p < len" "js ! pos p \<noteq> CHR 0x00"
  shows "step_push js p t p' t' \<and> k' = k + 1 \<and> pos p' < len"
proof -
  obtain r p1 t1 where str: "jsmne_parse_primitive p js len t n = (r, p1, t1)"
    by (cases "jsmne_parse_primitive p js len t n") auto
  from step obtain ts where ts: "tok_at t n (toksuper p) = Some ts"
    unfolding parse_char_prim [OF prim]
    by (cases "tok_at t n (toksuper p)") simp_all
  from step have key: "\<not> (tok_type ts = JSON_OBJECT \<or> (tok_type ts = JSON_STRING \<and> tok_size ts \<noteq> 0))"
    unfolding parse_char_prim [OF prim] ts by (simp split: if_splits)
  with step have r: "\<not> r < 0"
    unfolding parse_char_prim [OF prim] ts str by (simp split: if_splits)
  with step key have p': "p' = p1" and inc: "super_size_incr t1 n (toksuper p1) = Some t'"
    and k': "k' = k + 1"
    unfolding parse_char_prim [OF prim] ts str
    by (simp_all split: option.splits)
  from jsmne_parse_primitive_ok [OF str r] obtain i where
    scan: "primitive_scan js len (pos p) = PrimFound i" and room: "toknext p < n"
    and p1: "p1 = p\<lparr>pos := i - 1, toknext := toknext p + 1\<rparr>"
    and t1: "t1 = (t(toknext p := (t (toknext p))\<lparr>tok_start := -1, tok_end := -1, tok_size := 0,
                    tok_parent := -1\<rparr>))
                (toknext p := (jsmne_fill_token
                   ((t(toknext p := (t (toknext p))\<lparr>tok_start := -1, tok_end := -1,
                        tok_size := 0, tok_parent := -1\<rparr>)) (toknext p))
                   JSON_PRIMITIVE (int (pos p)) (int i))\<lparr>tok_parent := toksuper p\<rparr>)"
    by blast
  have pu: "pushed t t' (toknext p) (toksuper p) JSON_PRIMITIVE (int (pos p)) (int i)"
    using inc unfolding t1 p1 by (intro pushed_leaf [OF sup(2,1) room]) simp
  have "primitive_scan js len (pos p) = primitive_scan js len (pos p + 1)"
    using pos prim_start_not_punct [OF prim] prim
    by (subst primitive_scan.simps) (auto simp: prim_start_def prim_delimiter_def)
  with scan have ge: "pos p + 1 \<le> i" and le: "i \<le> len"
    using primitive_scan_ge [of js len "pos p + 1" i] primitive_scan_le [of js len "pos p + 1" i] pos
    by simp_all
  then have lt: "i - 1 < len"
    by simp
  have "step_push js p t p' t'"
    by (rule step_pushI [OF pu]) (use ge p' p1 in \<open>auto simp: is_container_def\<close>)
  with k' p' p1 lt show ?thesis
    by simp
qed

lemma step_comma:
  assumes step: "jsmne_parse_char p js len t n k = Some (Continue p' t' k')"
    and comma: "js ! pos p = CHR '',''"
    and sup: "-1 \<le> toksuper p" "toksuper p < int (toknext p)"
    and links: "\<forall>m<toknext p. -1 \<le> tok_parent (t m) \<and> tok_parent (t m) < int m"
  shows "step_same p t p' t' \<and> k' = k"
proof -
  from step obtain ts where ts: "tok_at t n (toksuper p) = Some ts"
    unfolding parse_char_comma [OF comma]
    by (cases "tok_at t n (toksuper p)") simp_all
  from step have t': "t' = t" and k': "k' = k"
    and p': "p' = p \<or> p' = p\<lparr>toksuper := comma_search t (toknext p) (tok_parent ts)\<rparr>"
    unfolding parse_char_comma [OF comma] ts by (auto split: if_splits)
  from ts have nn: "0 \<le> toksuper p" and tsm: "ts = t (nat (toksuper p))"
    by (auto simp: tok_at_def split: if_splits)
  from nn sup(2) have m: "nat (toksuper p) < toknext p"
    by simp
  with links have "-1 \<le> tok_parent (t (nat (toksuper p)))"
    "tok_parent (t (nat (toksuper p))) < int (nat (toksuper p))"
    by blast+
  with nn sup(2) tsm have "-1 \<le> tok_parent ts" "tok_parent ts < int (toknext p)"
    by simp_all
  with comma_search_range [of t "toknext p" "tok_parent ts"]
  have "-1 \<le> comma_search t (toknext p) (tok_parent ts)"
    "comma_search t (toknext p) (tok_parent ts) < int (toknext p)"
    by auto
  with p' t' k' sup show ?thesis
    by (auto simp: step_same_def)
qed

lemma step_other:
  assumes step: "jsmne_parse_char p js len t n k = Some (Continue p' t' k')"
    and other: "\<not> (js ! pos p = CHR ''{'' \<or> js ! pos p = CHR ''['')"
      "\<not> (js ! pos p = CHR ''}'' \<or> js ! pos p = CHR '']'')"
      "js ! pos p \<noteq> CHR 0x22" "\<not> prim_start (js ! pos p)" "js ! pos p \<noteq> CHR '',''"
    and sup: "-1 \<le> toksuper p" "toksuper p < int (toknext p)"
  shows "step_same p t p' t' \<and> k' = k"
proof -
  from step have "t' = t" and "k' = k"
    and "p' = p \<or> p' = p\<lparr>toksuper := int (toknext p) - 1\<rparr>"
    unfolding parse_char_other [OF other refl]
    by (auto split: if_splits)
  with sup show ?thesis
    by (auto simp: step_same_def)
qed

lemma jsmne_parse_char_cases:
  assumes step: "jsmne_parse_char p js len t n k = Some (Continue p' t' k')"
    and sup: "-1 \<le> toksuper p" "toksuper p < int (toknext p)"
    and links: "\<forall>m<toknext p. -1 \<le> tok_parent (t m) \<and> tok_parent (t m) < int m"
    and pos: "pos p < len" "js ! pos p \<noteq> CHR 0x00"
  shows "pos p' < len \<and>
         (step_push js p t p' t' \<and> k' = k + 1 \<or>
          (step_close js p t p' t' \<or> step_same p t p' t') \<and> k' = k)"
proof -
  have same: "step_same p t p' t' \<Longrightarrow> pos p' = pos p"
    by (simp add: step_same_def)
  consider (opn) "js ! pos p = CHR ''{'' \<or> js ! pos p = CHR ''[''"
    | (cls) "js ! pos p = CHR ''}'' \<or> js ! pos p = CHR '']''"
    | (quote) "js ! pos p = CHR 0x22"
    | (prim) "prim_start (js ! pos p)"
    | (comma) "js ! pos p = CHR '',''"
    | (other) "\<not> (js ! pos p = CHR ''{'' \<or> js ! pos p = CHR ''['')"
        "\<not> (js ! pos p = CHR ''}'' \<or> js ! pos p = CHR '']'')"
        "js ! pos p \<noteq> CHR 0x22" "\<not> prim_start (js ! pos p)" "js ! pos p \<noteq> CHR '',''"
    by blast
  then show ?thesis
  proof cases
    case opn
    from step_open [OF step opn sup] pos(1) show ?thesis by simp
  next
    case cls
    from step_closer [OF step cls sup links] pos(1) show ?thesis by simp
  next
    case quote
    from step_quote [OF step quote sup] show ?thesis by simp
  next
    case prim
    from step_prim [OF step prim sup pos] show ?thesis by simp
  next
    case comma
    from step_comma [OF step comma sup links] same pos(1) show ?thesis by simp
  next
    case other
    from step_other [OF step other sup] same pos(1) show ?thesis by simp
  qed
qed

lemma jsmne_parse_char_return:
  assumes "jsmne_parse_char p js len t n k = Some (Return r p1 t1)"
  shows "r < 0"
proof -
  consider (opn) "js ! pos p = CHR ''{'' \<or> js ! pos p = CHR ''[''"
    | (cls) "js ! pos p = CHR ''}'' \<or> js ! pos p = CHR '']''"
    | (quote) "js ! pos p = CHR 0x22"
    | (prim) "prim_start (js ! pos p)"
    | (comma) "js ! pos p = CHR '',''"
    | (other) "\<not> (js ! pos p = CHR ''{'' \<or> js ! pos p = CHR ''['')"
        "\<not> (js ! pos p = CHR ''}'' \<or> js ! pos p = CHR '']'')"
        "js ! pos p \<noteq> CHR 0x22" "\<not> prim_start (js ! pos p)" "js ! pos p \<noteq> CHR '',''"
    by blast
  then show ?thesis
  proof cases
    case opn
    from assms show ?thesis
      unfolding parse_char_open [OF opn]
      by (auto simp: JSON_ERROR_NOMEM_def split: option.splits)
  next
    case cls
    from assms show ?thesis
      unfolding parse_char_close [OF cls]
      by (auto simp: JSON_ERROR_INVAL_def split: option.splits closing.splits if_splits)
  next
    case quote
    from assms show ?thesis
      unfolding parse_char_quote [OF quote]
      by (auto split: option.splits prod.splits if_splits)
  next
    case prim
    from assms show ?thesis
      unfolding parse_char_prim [OF prim]
      by (auto simp: JSON_ERROR_INVAL_def split: option.splits prod.splits if_splits)
  next
    case comma
    from assms show ?thesis
      unfolding parse_char_comma [OF comma]
      by (auto split: option.splits if_splits)
  next
    case other
    from assms show ?thesis
      unfolding parse_char_other [OF other refl]
      by (auto simp: JSON_ERROR_INVAL_def split: if_splits)
  qed
qed

subsection \<open>An invariant of the scan\<close>

text \<open>The tokens below \<open>N\<close> whose \<open>parent\<close> is \<open>i\<close>.\<close>

definition children :: "token_table \<Rightarrow> nat \<Rightarrow> nat \<Rightarrow> nat set" where
  "children t N i = {j. j < N \<and> tok_parent (t j) = int i}"

text \<open>
  The span of a token when the scan stands before position \<open>q\<close>: a container starts at
  its opening character and, once closed, ends behind a closing character of its kind;
  a string or primitive has a finished span.
\<close>

definition span_ok :: "string \<Rightarrow> nat \<Rightarrow> token_s \<Rightarrow> bool" where
  "span_ok js q tk \<longleftrightarrow>
     0 \<le> tok_start tk \<and>
     (if is_container (tok_type tk)
      then tok_start tk < int q \<and> js ! nat (tok_start tk) = opener (tok_type tk) \<and>
           (tok_end tk = -1 \<or>
            tok_start tk < tok_end tk \<and> tok_end tk \<le> int q \<and>
            js ! nat (tok_end tk - 1) = closer (tok_type tk))
      else tok_start tk \<le> tok_end tk \<and> tok_end tk \<le> int q)"

definition table_inv :: "string \<Rightarrow> jsmne_parser \<Rightarrow> token_table \<Rightarrow> bool" where
  "table_inv js p t \<longleftrightarrow>
     -1 \<le> toksuper p \<and> toksuper p < int (toknext p) \<and>
     (\<forall>i<toknext p.
        -1 \<le> tok_parent (t i) \<and> tok_parent (t i) < int i \<and>
        tok_size (t i) = int (card (children t (toknext p) i)) \<and>
        span_ok js (pos p) (t i))"

lemma span_ok_mono: "span_ok js q tk \<Longrightarrow> q \<le> q' \<Longrightarrow> span_ok js q' tk"
  by (auto simp: span_ok_def split: if_splits)

lemma finite_children [simp]: "finite (children t N i)"
  by (simp add: children_def)

lemma children_pushed:
  assumes pu: "pushed t t' N s ty st en" and s: "s < int N"
    and links: "\<forall>j<N. tok_parent (t j) < int j"
  shows "i < N \<Longrightarrow> children t' (Suc N) i =
           (if int i = s then insert N (children t N i) else children t N i)"
    and "children t' (Suc N) N = {}"
    and "N \<notin> children t N i"
proof -
  have par: "tok_parent (t' j) = (if j = N then s else tok_parent (t j))" for j
    using pu by (simp add: pushed_def)
  show "children t' (Suc N) i =
      (if int i = s then insert N (children t N i) else children t N i)" if "i < N"
    using that by (auto simp: children_def par less_Suc_eq)
  show "children t' (Suc N) N = {}"
    using s links by (fastforce simp: children_def par less_Suc_eq)
  show "N \<notin> children t N i"
    by (simp add: children_def)
qed

lemma table_inv_push:
  assumes inv: "table_inv js p t" and st: "step_push js p t p' t'"
  shows "table_inv js (p'\<lparr>pos := pos p' + 1\<rparr>) t'"
proof -
  let ?N = "toknext p"
  from st obtain ty st' en where N': "toknext p' = ?N + 1" and pos: "pos p \<le> pos p'"
    and pu: "pushed t t' ?N (toksuper p) ty st' en" and st0: "0 \<le> st'"
    and kind: "if is_container ty
         then st' = int (pos p) \<and> en = -1 \<and> js ! pos p = opener ty \<and> pos p' = pos p \<and>
              toksuper p' = int ?N
         else st' \<le> en \<and> en \<le> int (pos p') + 1 \<and> toksuper p' = toksuper p"
    unfolding step_push_def by blast
  from inv have sup: "-1 \<le> toksuper p" "toksuper p < int ?N"
    and old: "\<And>i. i < ?N \<Longrightarrow> -1 \<le> tok_parent (t i) \<and> tok_parent (t i) < int i \<and>
        tok_size (t i) = int (card (children t ?N i)) \<and> span_ok js (pos p) (t i)"
    by (simp_all add: table_inv_def)
  have links: "\<forall>j<?N. tok_parent (t j) < int j"
    using old by blast
  note ch = children_pushed [OF pu sup(2) links]
  have fields: "tok_type (t' j) = tok_type (t j)" "tok_start (t' j) = tok_start (t j)"
    "tok_end (t' j) = tok_end (t j)" "tok_parent (t' j) = tok_parent (t j)"
    "tok_size (t' j) = (if int j = toksuper p then tok_size (t j) + 1 else tok_size (t j))"
    if "j \<noteq> ?N" for j
    using pu that by (simp_all add: pushed_def)
  have new: "tok_type (t' ?N) = ty" "tok_start (t' ?N) = st'" "tok_end (t' ?N) = en"
    "tok_parent (t' ?N) = toksuper p" "tok_size (t' ?N) = 0"
    using pu by (simp_all add: pushed_def)
  have super': "-1 \<le> toksuper p'" "toksuper p' < int (?N + 1)"
    using kind sup by (auto split: if_splits)
  have tok: "-1 \<le> tok_parent (t' i) \<and> tok_parent (t' i) < int i \<and>
      tok_size (t' i) = int (card (children t' (?N + 1) i)) \<and> span_ok js (pos p' + 1) (t' i)"
    if i: "i < ?N + 1" for i
  proof (cases "i = ?N")
    case True
    have "span_ok js (pos p' + 1) (t' ?N)"
      using kind st0 by (auto simp: span_ok_def new split: if_splits)
    with True sup ch(2) show ?thesis
      by (simp add: new)
  next
    case False
    with i have lt: "i < ?N" by simp
    have "span_ok js (pos p) (t' i)"
      using old [OF lt] by (simp add: span_ok_def fields [OF False])
    then have sp: "span_ok js (pos p' + 1) (t' i)"
      by (rule span_ok_mono) (use pos in simp)
    have "tok_size (t' i) = int (card (children t' (?N + 1) i))"
      using old [OF lt] ch(1) [OF lt] ch(3) [of i]
      by (simp add: fields [OF False])
    with sp old [OF lt] show ?thesis
      by (simp add: fields [OF False])
  qed
  show ?thesis
    unfolding table_inv_def using super' tok by (simp add: N')
qed

lemma children_closed:
  "children (t(i := (t i)\<lparr>tok_end := e\<rparr>)) N j = children t N j"
  by (auto simp: children_def)

lemma table_inv_close:
  assumes inv: "table_inv js p t" and st: "step_close js p t p' t'"
  shows "table_inv js (p'\<lparr>pos := pos p' + 1\<rparr>) t'"
proof -
  let ?N = "toknext p"
  from st obtain i where N': "toknext p' = ?N" and pos: "pos p' = pos p" and i: "i < ?N"
    and opn: "tok_open (t i)" and cont: "is_container (tok_type (t i))"
    and chr: "js ! pos p = closer (tok_type (t i))"
    and t': "t' = t(i := (t i)\<lparr>tok_end := int (pos p) + 1\<rparr>)"
    and sup': "toksuper p' = tok_parent (t i)"
    unfolding step_close_def by blast
  from inv have old: "\<And>j. j < ?N \<Longrightarrow> -1 \<le> tok_parent (t j) \<and> tok_parent (t j) < int j \<and>
        tok_size (t j) = int (card (children t ?N j)) \<and> span_ok js (pos p) (t j)"
    by (simp_all add: table_inv_def)
  have super': "-1 \<le> toksuper p'" "toksuper p' < int ?N"
    using old [OF i] i sup' by simp_all
  have tok: "-1 \<le> tok_parent (t' j) \<and> tok_parent (t' j) < int j \<and>
      tok_size (t' j) = int (card (children t' ?N j)) \<and> span_ok js (pos p + 1) (t' j)"
    if j: "j < ?N" for j
  proof (cases "j = i")
    case True
    have "span_ok js (pos p + 1) (t' i)"
      using old [OF i] cont chr opn by (auto simp: span_ok_def t' tok_open_def)
    with old [OF i] True show ?thesis
      by (simp add: t' children_closed)
  next
    case False
    have "span_ok js (pos p + 1) (t j)"
      by (rule span_ok_mono [where q = "pos p"]) (use old [OF j] in simp_all)
    with old [OF j] False show ?thesis
      by (simp add: t' children_closed)
  qed
  show ?thesis
    unfolding table_inv_def using super' tok by (simp add: N' pos)
qed

lemma table_inv_same:
  assumes inv: "table_inv js p t" and st: "step_same p t p' t'"
  shows "table_inv js (p'\<lparr>pos := pos p' + 1\<rparr>) t'"
proof -
  from st have eq: "toknext p' = toknext p" "pos p' = pos p" "t' = t"
    and sup: "-1 \<le> toksuper p'" "toksuper p' < int (toknext p)"
    by (simp_all add: step_same_def)
  have "span_ok js (pos p) tk \<Longrightarrow> span_ok js (pos p + 1) tk" for tk
    by (rule span_ok_mono [where q = "pos p"]) simp_all
  with inv sup show ?thesis
    by (simp add: table_inv_def eq)
qed

lemma unmatched_iff: "unmatched t N \<longleftrightarrow> (\<exists>i<N. tok_open (t i))"
  by (induction N) (auto simp: tok_open_def less_Suc_eq)

lemma jsmne_parse_loop_inv:
  assumes "jsmne_parse_loop p js len t n k = Some (r, pf, tf)"
    and "table_inv js p t" and "k = int (toknext p)" and "pos p \<le> len" and "0 \<le> r"
  shows "table_inv js pf tf \<and> r = int (toknext pf) \<and> pos pf \<le> len \<and>
         (\<forall>i<toknext pf. \<not> tok_open (tf i))"
  using assms
proof (induction p js len t n k rule: jsmne_parse_loop.induct)
  case (1 p js len t n k)
  show ?case
  proof (cases "pos p < len \<and> js ! pos p \<noteq> CHR 0x00")
    case False
    with "1.prems"(1) have "\<not> unmatched t (toknext p)" and "r = k" "pf = p" "tf = t"
      using "1.prems"(5)
      by (subst (asm) jsmne_parse_loop.simps; simp add: JSON_ERROR_PART_def split: if_splits)+
    with "1.prems" show ?thesis
      by (simp add: unmatched_iff)
  next
    case True
    from "1.prems"(2) have sup: "-1 \<le> toksuper p" "toksuper p < int (toknext p)"
      and links: "\<forall>m<toknext p. -1 \<le> tok_parent (t m) \<and> tok_parent (t m) < int m"
      by (simp_all add: table_inv_def)
    from "1.prems"(1) True obtain x where x: "jsmne_parse_char p js len t n k = Some x"
      by (subst (asm) jsmne_parse_loop.simps) (auto split: option.splits)
    show ?thesis
    proof (cases x)
      case (Return r' p1 t1)
      with "1.prems"(1) True x have "r = r'"
        by (subst (asm) jsmne_parse_loop.simps) simp
      with jsmne_parse_char_return [OF x [unfolded Return]] "1.prems"(5) show ?thesis
        by simp
    next
      case (Continue p1 t1 k1)
      with "1.prems"(1) True x have rec:
        "jsmne_parse_loop (p1\<lparr>pos := pos p1 + 1\<rparr>) js len t1 n k1 = Some (r, pf, tf)"
        by (subst (asm) jsmne_parse_loop.simps) simp
      from jsmne_parse_char_cases [OF x [unfolded Continue] sup links] True
      have pos1: "pos p1 < len"
        and kinds: "step_push js p t p1 t1 \<and> k1 = k + 1 \<or>
          (step_close js p t p1 t1 \<or> step_same p t p1 t1) \<and> k1 = k"
        by simp_all
      from kinds have inv1: "table_inv js (p1\<lparr>pos := pos p1 + 1\<rparr>) t1"
        using table_inv_push [OF "1.prems"(2)] table_inv_close [OF "1.prems"(2)]
          table_inv_same [OF "1.prems"(2)]
        by blast
      from kinds have k1: "k1 = int (toknext (p1\<lparr>pos := pos p1 + 1\<rparr>))"
        using "1.prems"(3) by (auto simp: step_push_def step_close_def step_same_def)
      from pos1 have le: "pos (p1\<lparr>pos := pos p1 + 1\<rparr>) \<le> len"
        by simp
      from "1.IH" [OF True x Continue rec inv1 k1 le "1.prems"(5)] show ?thesis .
    qed
  qed
qed

text \<open>
  Whatever the text, when the scan returns a count, that count is the number of
  tokens, the parent of every token is an earlier token or none (so every parent chain
  ends at a token without parent), the size of every token is the number of tokens
  whose parent it is, every container is closed and spans from its opening character
  to just behind a closing character of its kind, and every other token has a span
  inside the text.
\<close>

theorem successful_scan_table:
  assumes "jsmne_parse jsmne_init js len T n = Some (r, p, t)" and "0 \<le> r"
  shows "r = int (toknext p)"
    and "\<forall>i<toknext p. -1 \<le> tok_parent (t i) \<and> tok_parent (t i) < int i"
    and "\<forall>i<toknext p.
           tok_size (t i) = int (card {j. j < toknext p \<and> tok_parent (t j) = int i})"
    and "\<forall>i<toknext p. is_container (tok_type (t i)) \<longrightarrow>
           0 \<le> tok_start (t i) \<and> tok_start (t i) < tok_end (t i) \<and> tok_end (t i) \<le> int len \<and>
           js ! nat (tok_start (t i)) = opener (tok_type (t i)) \<and>
           js ! nat (tok_end (t i) - 1) = closer (tok_type (t i))"
    and "\<forall>i<toknext p. \<not> is_container (tok_type (t i)) \<longrightarrow>
           0 \<le> tok_start (t i) \<and> tok_start (t i) \<le> tok_end (t i) \<and> tok_end (t i) \<le> int len"
proof -
  have "table_inv js jsmne_init T"
    by (simp add: table_inv_def jsmne_init_def)
  from jsmne_parse_loop_inv [OF assms(1) [unfolded jsmne_parse_def] this _ _ assms(2)]
  have inv: "table_inv js p t" and r: "r = int (toknext p)" and pos: "pos p \<le> len"
    and closed: "\<forall>i<toknext p. \<not> tok_open (t i)"
    by (simp_all add: jsmne_init_def)
  from inv have tok: "-1 \<le> tok_parent (t i) \<and> tok_parent (t i) < int i \<and>
      tok_size (t i) = int (card (children t (toknext p) i)) \<and> span_ok js (pos p) (t i)"
    if "i < toknext p" for i
    using that by (simp add: table_inv_def)
  show "r = int (toknext p)"
    by (rule r)
  show "\<forall>i<toknext p. -1 \<le> tok_parent (t i) \<and> tok_parent (t i) < int i"
    using tok by blast
  show "\<forall>i<toknext p.
      tok_size (t i) = int (card {j. j < toknext p \<and> tok_parent (t j) = int i})"
    using tok by (simp add: children_def)
  show "\<forall>i<toknext p. is_container (tok_type (t i)) \<longrightarrow>
      0 \<le> tok_start (t i) \<and> tok_start (t i) < tok_end (t i) \<and> tok_end (t i) \<le> int len \<and>
      js ! nat (tok_start (t i)) = opener (tok_type (t i)) \<and>
      js ! nat (tok_end (t i) - 1) = closer (tok_type (t i))"
  proof (intro allI impI)
    fix i assume i: "i < toknext p" and c: "is_container (tok_type (t i))"
    from tok [OF i] have "span_ok js (pos p) (t i)" by simp
    moreover from closed i have "\<not> tok_open (t i)" by simp
    ultimately show "0 \<le> tok_start (t i) \<and> tok_start (t i) < tok_end (t i) \<and>
        tok_end (t i) \<le> int len \<and> js ! nat (tok_start (t i)) = opener (tok_type (t i)) \<and>
        js ! nat (tok_end (t i) - 1) = closer (tok_type (t i))"
      using c pos by (auto simp: span_ok_def tok_open_def)
  qed
  show "\<forall>i<toknext p. \<not> is_container (tok_type (t i)) \<longrightarrow>
      0 \<le> tok_start (t i) \<and> tok_start (t i) \<le> tok_end (t i) \<and> tok_end (t i) \<le> int len"
  proof (intro allI impI)
    fix i assume i: "i < toknext p" and c: "\<not> is_container (tok_type (t i))"
    from tok [OF i] have "span_ok js (pos p) (t i)" by simp
    then show "0 \<le> tok_start (t i) \<and> tok_start (t i) \<le> tok_end (t i) \<and>
        tok_end (t i) \<le> int len"
      using c pos by (auto simp: span_ok_def)
  qed
qed

end
